theory Spec2Isabelle
  imports Complex_Main "HOL-Library.Log_Nat" "HOL-Library.Sublist" "HOL-Library.Word"
begin

section \<open>JavaScript numbers\<close>

text \<open>
  A JavaScript \<^verbatim>\<open>number\<close> is an IEEE 754 binary64 value. Every number the component
  computes is finite, so a number is modelled by the rational it denotes, and every
  arithmetic operation of the source rounds its exact result to the nearest binary64
  value, ties to even (\<open>rnd\<close>). The exponent is bounded below (gradual underflow);
  overflow to infinity is not modelled: the operands of the component are pixel counts
  below \<open>2^32\<close>, string lengths and scale factors in \<open>(0, 1]\<close>.
\<close>

type_synonym number = rat

text \<open>Nearest integer, ties to the even one.\<close>

definition rne :: "rat \<Rightarrow> int" where
  "rne y = (let f = \<lfloor>y\<rfloor>; d = y - of_int f in
     if d < 1 / 2 then f else if 1 / 2 < d then f + 1 else if even f then f else f + 1)"

text \<open>The binary exponent of a positive rational: \<open>2^e \<le> x < 2^(e+1)\<close>.\<close>

definition ilog2 :: "rat \<Rightarrow> int" where
  "ilog2 x = (case quotient_of x of (p, q) \<Rightarrow>
     let d = bitlen p - bitlen q in if x < 2 powi d then d - 1 else d)"

text \<open>Rounding to binary64: 53 significant bits, least exponent \<open>-1022\<close>.\<close>

definition rnd :: "rat \<Rightarrow> number" where
  "rnd x = (if x = 0 then 0 else
     let e = max (ilog2 \<bar>x\<bar>) (- 1022); u = 2 powi (e - 52)
     in sgn x * of_int (rne (\<bar>x\<bar> / u)) * u)"

definition fmul :: "number \<Rightarrow> number \<Rightarrow> number" where
  "fmul a b = rnd (a * b)"

definition fdiv :: "number \<Rightarrow> number \<Rightarrow> number" where
  "fdiv a b = rnd (a / b)"

definition fsub :: "number \<Rightarrow> number \<Rightarrow> number" where
  "fsub a b = rnd (a - b)"

text \<open>Integer square root, two bits at a time.\<close>

definition isqrt_step :: "int \<Rightarrow> int \<Rightarrow> int" where
  "isqrt_step n r = (if (r + 1) * (r + 1) \<le> n then r + 1 else r)"

function isqrt :: "int \<Rightarrow> int" where
  "isqrt n = (if n \<le> 0 then 0 else isqrt_step n (2 * isqrt (n div 4)))"
  by pat_completeness auto
termination
  by (relation "measure nat") auto

text \<open>
  \<^verbatim>\<open>Math.sqrt\<close>, correctly rounded as the hardware instruction is: the square root lies in
  the binade of exponent \<open>ilog2 x div 2\<close>, and its 53-bit significand is the integer nearest
  to the square root of the scaled argument.
\<close>

definition Math_sqrt :: "number \<Rightarrow> number" where
  "Math_sqrt x = (if x \<le> 0 then 0 else
     let r = ilog2 x div 2; u = 2 powi (r - 52);
         n = (isqrt \<lfloor>4 * (x / (u * u))\<rfloor> + 1) div 2
     in of_int n * u)"

text \<open>\<^verbatim>\<open>Math.round\<close>: the nearest integer, a tie going up. The result is exact.\<close>

definition Math_round :: "number \<Rightarrow> number" where
  "Math_round x = of_int \<lfloor>x + 1 / 2\<rfloor>"


section \<open>JavaScript strings and arrays\<close>

text \<open>
  Strings are character lists; the characters outside ASCII of the source's literals are
  written as their UTF-8 bytes. The source takes the length of ASCII strings only, and
  matches on ASCII characters only.
\<close>

text \<open>\<^verbatim>\<open>s.startsWith(p)\<close>\<close>

definition startsWith :: "string \<Rightarrow> string \<Rightarrow> bool" where
  "startsWith s p = prefix p s"

text \<open>\<^verbatim>\<open>s.split(c)\<close> for a separator of one character.\<close>

fun split :: "char \<Rightarrow> string \<Rightarrow> string list" where
  "split c [] = [[]]"
| "split c (x # xs) =
     (if x = c then [] # split c xs
      else (case split c xs of [] \<Rightarrow> [[x]] | y # ys \<Rightarrow> (x # y) # ys))"

text \<open>\<^verbatim>\<open>xs[i]\<close>, which is \<^verbatim>\<open>undefined\<close> out of range.\<close>

fun index :: "'a list \<Rightarrow> nat \<Rightarrow> 'a option" where
  "index [] i = None"
| "index (x # xs) 0 = Some x"
| "index (x # xs) (Suc i) = index xs i"

text \<open>
  \<^verbatim>\<open>name.replace(/\.[^/.]+$/, "")\<close>: the leftmost dot that is followed, up to the end of
  the string, by at least one character and by no slash and no dot, is removed with all
  that follows it.
\<close>

fun replace_extension :: "string \<Rightarrow> string" where
  "replace_extension [] = []"
| "replace_extension (c # cs) =
     (if c = CHR ''.'' \<and> cs \<noteq> [] \<and> list_all (\<lambda>d. d \<noteq> CHR ''/'' \<and> d \<noteq> CHR ''.'') cs
      then [] else c # replace_extension cs)"

text \<open>\<^verbatim>\<open>s.replace(a, b)\<close> for a pattern of one character: the first occurrence only.\<close>

fun replace_char :: "char \<Rightarrow> string \<Rightarrow> string \<Rightarrow> string" where
  "replace_char a b [] = []"
| "replace_char a b (c # cs) = (if c = a then b @ cs else c # replace_char a b cs)"

text \<open>
  \<^verbatim>\<open>xs.sort(cmp)\<close>: a stable sort by the sign of the comparator, here by insertion. An
  element goes before the first element it does not compare greater than.
\<close>

fun insert_by :: "('a \<Rightarrow> 'a \<Rightarrow> number) \<Rightarrow> 'a \<Rightarrow> 'a list \<Rightarrow> 'a list" where
  "insert_by cmp x [] = [x]"
| "insert_by cmp x (y # ys) =
     (if cmp x y \<le> 0 then x # y # ys else y # insert_by cmp x ys)"

definition sort_by :: "('a \<Rightarrow> 'a \<Rightarrow> number) \<Rightarrow> 'a list \<Rightarrow> 'a list" where
  "sort_by cmp xs = foldr (insert_by cmp) xs []"

text \<open>The comparator \<^verbatim>\<open>(a, b) => b - a\<close>.\<close>

definition descending :: "number \<Rightarrow> number \<Rightarrow> number" where
  "descending a b = fsub b a"


section \<open>The canvas\<close>

type_synonym byte = "8 word"

text \<open>Base64 with padding (RFC 4648), the transport encoding of a \<^verbatim>\<open>data:\<close> URL.\<close>

definition base64_alphabet :: string where
  "base64_alphabet = ''ABCDEFGHIJKLMNOPQRSTUVWXYZabcdefghijklmnopqrstuvwxyz0123456789+/''"

text \<open>The character of a sextet: the index is below 64.\<close>

definition base64_char :: "nat \<Rightarrow> char" where
  "base64_char i = base64_alphabet ! (i mod 64)"

fun base64_encode :: "byte list \<Rightarrow> string" where
  "base64_encode [] = []"
| "base64_encode [a] =
     [base64_char (unat a div 4), base64_char (unat a mod 4 * 16), CHR ''='', CHR ''='']"
| "base64_encode [a, b] =
     [base64_char (unat a div 4), base64_char (unat a mod 4 * 16 + unat b div 16),
      base64_char (unat b mod 16 * 4), CHR ''='']"
| "base64_encode (a # b # c # bs) =
     [base64_char (unat a div 4), base64_char (unat a mod 4 * 16 + unat b div 16),
      base64_char (unat b mod 16 * 4 + unat c div 64), base64_char (unat c mod 64)]
     @ base64_encode bs"

definition base64_value :: "char \<Rightarrow> nat option" where
  "base64_value c = map_of (zip base64_alphabet [0 ..< 64]) c"

definition decode_group :: "char \<Rightarrow> char \<Rightarrow> char \<Rightarrow> char \<Rightarrow> byte list option" where
  "decode_group c0 c1 c2 c3 =
     (case (base64_value c0, base64_value c1, base64_value c2, base64_value c3) of
        (Some s0, Some s1, Some s2, Some s3) \<Rightarrow>
          Some [of_nat (s0 * 4 + s1 div 16), of_nat (s1 mod 16 * 16 + s2 div 4),
                of_nat (s2 mod 4 * 64 + s3)]
      | _ \<Rightarrow> None)"

text \<open>Decoding: four characters give three bytes, a padded last group one or two.\<close>

fun base64_decode :: "string \<Rightarrow> byte list option" where
  "base64_decode [] = Some []"
| "base64_decode (c0 # c1 # c2 # c3 # cs) =
     (if cs = [] \<and> c3 = CHR ''='' then
        (if c2 = CHR ''='' then map_option (take 1) (decode_group c0 c1 CHR ''A'' CHR ''A'')
         else map_option (take 2) (decode_group c0 c1 c2 CHR ''A''))
      else (case (decode_group c0 c1 c2 c3, base64_decode cs) of
              (Some g, Some r) \<Rightarrow> Some (g @ r)
            | _ \<Rightarrow> None))"
| "base64_decode cs = None"

text \<open>
  An image element that has loaded: its \<^verbatim>\<open>width\<close> and \<^verbatim>\<open>height\<close> are pixel counts
  (\<^verbatim>\<open>unsigned long\<close> in the DOM), its pixels are left to the codec.
\<close>

record HTMLImageElement =
  img_width :: nat
  img_height :: nat
  img_src :: string

text \<open>
  The image codecs of the browser are not part of the repository. A codec is a parameter
  of the model: it maps the image drawn, the size of the canvas, the MIME type and the
  quality asked for to the bytes of the encoded file.
\<close>

type_synonym codec =
  "HTMLImageElement \<Rightarrow> number \<Rightarrow> number \<Rightarrow> string \<Rightarrow> number option \<Rightarrow> byte list"

text \<open>
  \<^verbatim>\<open>canvas.toDataURL(type, quality)\<close> after \<^verbatim>\<open>drawImage(img, 0, 0, w, h)\<close> on a canvas of
  \<open>w\<close> by \<open>h\<close> pixels. A canvas without pixels gives \<^verbatim>\<open>data:,\<close>.
\<close>

definition toDataURL ::
  "codec \<Rightarrow> HTMLImageElement \<Rightarrow> number \<Rightarrow> number \<Rightarrow> string \<Rightarrow> number option \<Rightarrow> string" where
  "toDataURL enc img w h mimeType quality =
     (if w = 0 \<or> h = 0 then ''data:,''
      else ''data:'' @ mimeType @ '';base64,'' @ base64_encode (enc img w h mimeType quality))"

text \<open>
  The binary payload of a \<^verbatim>\<open>data:\<close> URL: the text after the first comma, decoded from
  base64.
\<close>

definition decoded_payload :: "string \<Rightarrow> byte list option" where
  "decoded_payload url =
     (case index (split CHR '','' url) 1 of None \<Rightarrow> None | Some text \<Rightarrow> base64_decode text)"

record File =
  file_name :: string
  file_type :: string
  file_size :: nat

text \<open>What a handler does outside the state of the component, in the order it does it.\<close>

datatype effect =
  Alert string
| ReadAsDataURL File
| SetImageSrc string
| DrawImage HTMLImageElement number number
| ToDataURL string "number option"
| Download string string
| UncaughtTypeError


section \<open>The component\<close>

text \<open>
  The component \<^verbatim>\<open>Home\<close> of the first source file, the one with the two selections: its
  option tables, its state and its handlers. A handler is a function from the state to
  the state; the state carries, after the fields of the component, the effects done so
  far.
\<close>

record WidthOption =
  w_value :: number
  w_label :: string

record FileSizeOption =
  f_value :: number
  f_label :: string
  f_ratio :: string

definition WIDTH_SCALE_OPTIONS :: "WidthOption list" where
  "WIDTH_SCALE_OPTIONS =
     [\<lparr>w_value = rnd 1, w_label = ''100%''\<rparr>,
      \<lparr>w_value = rnd (9 / 10), w_label = ''90%''\<rparr>,
      \<lparr>w_value = rnd (8 / 10), w_label = ''80%''\<rparr>,
      \<lparr>w_value = rnd (7 / 10), w_label = ''70%''\<rparr>,
      \<lparr>w_value = rnd (5 / 10), w_label = ''50%''\<rparr>]"

definition FILE_SIZE_OPTIONS :: "FileSizeOption list" where
  "FILE_SIZE_OPTIONS =
     [\<lparr>f_value = fdiv 1 (Math_sqrt 2), f_label = ''1/2'', f_ratio = ''1-2''\<rparr>,
      \<lparr>f_value = fdiv 1 2, f_label = ''1/4'', f_ratio = ''1-4''\<rparr>,
      \<lparr>f_value = fdiv 1 (Math_sqrt 8), f_label = ''1/8'', f_ratio = ''1-8''\<rparr>]"

record ResizedImage =
  r_id :: string
  r_label :: string
  r_dataUrl :: string
  r_width :: number
  r_height :: number
  r_fileSize :: number

record OriginalInfo =
  o_name :: string
  o_width :: nat
  o_height :: nat
  o_fileSize :: nat
  o_type :: string

record state =
  originalImage :: "string option"
  originalInfo :: "OriginalInfo option"
  resizedImages :: "ResizedImage list"
  isProcessing :: bool
  selectedWidthScale :: number
  selectedFileSizeScales :: "number list"
  loadedImage :: "HTMLImageElement option"
  effects :: "effect list"

definition initial :: state where
  "initial =
     \<lparr>originalImage = None, originalInfo = None, resizedImages = [], isProcessing = False,
      selectedWidthScale = rnd 1,
      selectedFileSizeScales = [fdiv 1 (Math_sqrt 2), fdiv 1 2, fdiv 1 (Math_sqrt 8)],
      loadedImage = None, effects = []\<rparr>"

text \<open>The object \<^verbatim>\<open>resizeImage\<close> resolves to.\<close>

record Resized =
  dataUrl :: string
  width :: number
  height :: number
  fileSize :: number

text \<open>
  \<^verbatim>\<open>resizeImage\<close> returns the effects on the canvas and the object resolved;
  \<^verbatim>\<open>dataUrl.split(",")[1]\<close> is \<^verbatim>\<open>undefined\<close> for a URL without a comma, and its
  \<^verbatim>\<open>length\<close> then throws.
\<close>

definition resizeImage ::
  "codec \<Rightarrow> HTMLImageElement \<Rightarrow> number \<Rightarrow> string \<Rightarrow> effect list \<times> Resized option" where
  "resizeImage enc img scale originalType =
     (let newWidth = Math_round (fmul (of_nat (img_width img)) scale);
          newHeight = Math_round (fmul (of_nat (img_height img)) scale);
          mimeType = (if originalType = ''image/png'' then ''image/png'' else ''image/jpeg'');
          quality = (if mimeType = ''image/jpeg'' then Some (rnd (92 / 100)) else None);
          url = toDataURL enc img newWidth newHeight mimeType quality;
          canvas = [DrawImage img newWidth newHeight, ToDataURL mimeType quality]
      in case index (split CHR '','' url) 1 of
           None \<Rightarrow> (canvas, None)
         | Some base64 \<Rightarrow>
             (canvas,
              Some \<lparr>dataUrl = url, width = newWidth, height = newHeight,
                    fileSize = Math_round (fdiv (fmul (of_nat (length base64)) 3) 4)\<rparr>))"

text \<open>
  \<^verbatim>\<open>handleFileChange\<close> and the two callbacks it installs, \<^verbatim>\<open>reader.onload\<close> and
  \<^verbatim>\<open>img.onload\<close>. The notice is the text of the alert, which asks for an image file.
\<close>

definition select_image_notice :: string where
  "select_image_notice =
     [CHR 0xE7, CHR 0x94, CHR 0xBB, CHR 0xE5, CHR 0x83, CHR 0x8F, CHR 0xE3, CHR 0x83, CHR 0x95,
      CHR 0xE3, CHR 0x82, CHR 0xA1, CHR 0xE3, CHR 0x82, CHR 0xA4, CHR 0xE3, CHR 0x83, CHR 0xAB,
      CHR 0xE3, CHR 0x82, CHR 0x92, CHR 0xE9, CHR 0x81, CHR 0xB8, CHR 0xE6, CHR 0x8A, CHR 0x9E,
      CHR 0xE3, CHR 0x81, CHR 0x97, CHR 0xE3, CHR 0x81, CHR 0xA6, CHR 0xE3, CHR 0x81, CHR 0x8F,
      CHR 0xE3, CHR 0x81, CHR 0xA0, CHR 0xE3, CHR 0x81, CHR 0x95, CHR 0xE3, CHR 0x81, CHR 0x84]"

definition handleFileChange :: "state \<Rightarrow> File option \<Rightarrow> state" where
  "handleFileChange s files =
     (case files of
        None \<Rightarrow> s
      | Some file \<Rightarrow>
          if \<not> startsWith (file_type file) ''image/''
          then s\<lparr>effects := effects s @ [Alert select_image_notice]\<rparr>
          else s\<lparr>resizedImages := [], effects := effects s @ [ReadAsDataURL file]\<rparr>)"

definition reader_onload :: "state \<Rightarrow> string \<Rightarrow> state" where
  "reader_onload s url = s\<lparr>originalImage := Some url, effects := effects s @ [SetImageSrc url]\<rparr>"

definition img_onload :: "state \<Rightarrow> File \<Rightarrow> HTMLImageElement \<Rightarrow> state" where
  "img_onload s file img =
     s\<lparr>originalInfo :=
         Some \<lparr>o_name = file_name file, o_width = img_width img, o_height = img_height img,
               o_fileSize = file_size file, o_type = file_type file\<rparr>,
       loadedImage := Some img\<rparr>"

definition handleFileSizeToggle :: "state \<Rightarrow> number \<Rightarrow> state" where
  "handleFileSizeToggle s scale =
     s\<lparr>selectedFileSizeScales :=
         (let prev = selectedFileSizeScales s in
          if scale \<in> set prev then filter (\<lambda>x. x \<noteq> scale) prev
          else sort_by descending (prev @ [scale]))\<rparr>"

definition setSelectedWidthScale :: "state \<Rightarrow> number \<Rightarrow> state" where
  "setSelectedWidthScale s v = s\<lparr>selectedWidthScale := v\<rparr>"

text \<open>The label of a variant: the two option labels around the words of the source.\<close>

definition variant_label :: "string \<Rightarrow> string \<Rightarrow> string" where
  "variant_label wl fl =
     [CHR 0xE6, CHR 0xA8, CHR 0xAA] @ wl @
     [CHR 0x20, CHR 0xC3, CHR 0x97, CHR 0x20, CHR 0xE3, CHR 0x83, CHR 0x95, CHR 0xE3, CHR 0x82,
      CHR 0xA1, CHR 0xE3, CHR 0x82, CHR 0xA4, CHR 0xE3, CHR 0x83, CHR 0xAB] @ fl"

text \<open>\<^verbatim>\<open>widthOption?.label\<close> inside a template string.\<close>

definition optional_label :: "WidthOption option \<Rightarrow> string" where
  "optional_label widthOption =
     (case widthOption of None \<Rightarrow> ''undefined'' | Some opt \<Rightarrow> w_label opt)"

text \<open>The object pushed for a variant: \<^verbatim>\<open>{ id: ..., label: ..., ...result }\<close>.\<close>

definition variant :: "WidthOption option \<Rightarrow> FileSizeOption \<Rightarrow> Resized \<Rightarrow> ResizedImage" where
  "variant widthOption fileSizeOption result =
     \<lparr>r_id = optional_label widthOption @ ''-'' @ f_ratio fileSizeOption,
      r_label = variant_label (optional_label widthOption) (f_label fileSizeOption),
      r_dataUrl = dataUrl result, r_width = width result, r_height = height result,
      r_fileSize = fileSize result\<rparr>"

text \<open>
  The loop of \<^verbatim>\<open>handleConvert\<close> over the sorted selection: the variants pushed so far and
  the effects so far are threaded through; a throw ends the loop with no result.
\<close>

fun convert_loop ::
  "codec \<Rightarrow> HTMLImageElement \<Rightarrow> string \<Rightarrow> number \<Rightarrow> WidthOption option \<Rightarrow> number list \<Rightarrow>
   ResizedImage list \<Rightarrow> effect list \<Rightarrow> effect list \<times> ResizedImage list option" where
  "convert_loop enc img originalType widthScale widthOption [] results trace =
     (trace, Some results)"
| "convert_loop enc img originalType widthScale widthOption (fileSizeScale # rest) results trace =
     (case find (\<lambda>opt. f_value opt = fileSizeScale) FILE_SIZE_OPTIONS of
        None \<Rightarrow> convert_loop enc img originalType widthScale widthOption rest results trace
      | Some fileSizeOption \<Rightarrow>
          (let combinedScale = fmul widthScale fileSizeScale in
           case resizeImage enc img combinedScale originalType of
             (canvas, None) \<Rightarrow> (trace @ canvas, None)
           | (canvas, Some result) \<Rightarrow>
               convert_loop enc img originalType widthScale widthOption rest
                 (results @ [variant widthOption fileSizeOption result]) (trace @ canvas)))"

text \<open>
  \<^verbatim>\<open>handleConvert\<close>. The sort is in place, on the array held in the state. A throw leaves
  the variant list empty and the processing flag set.
\<close>

definition handleConvert :: "codec \<Rightarrow> state \<Rightarrow> state" where
  "handleConvert enc s =
     (case (loadedImage s, originalInfo s) of
        (Some img, Some info) \<Rightarrow>
          if selectedFileSizeScales s = [] then s
          else
            (let widthOption =
                   find (\<lambda>opt. w_value opt = selectedWidthScale s) WIDTH_SCALE_OPTIONS;
                 sorted = sort_by descending (selectedFileSizeScales s)
             in case convert_loop enc img (o_type info) (selectedWidthScale s) widthOption
                       sorted [] (effects s) of
                  (trace, Some results) \<Rightarrow>
                    s\<lparr>selectedFileSizeScales := sorted, resizedImages := results,
                      isProcessing := False, effects := trace\<rparr>
                | (trace, None) \<Rightarrow>
                    s\<lparr>selectedFileSizeScales := sorted, resizedImages := [],
                      isProcessing := True, effects := trace @ [UncaughtTypeError]\<rparr>)
      | _ \<Rightarrow> s)"

definition handleDownload :: "state \<Rightarrow> string \<Rightarrow> string \<Rightarrow> state" where
  "handleDownload s url ident =
     (case originalInfo s of
        None \<Rightarrow> s
      | Some info \<Rightarrow>
          (let extension = (if o_type info = ''image/png'' then ''png'' else ''jpg'');
               baseName = replace_extension (o_name info);
               fileName = baseName @ ''_'' @ ident @ ''.'' @ extension
           in s\<lparr>effects := effects s @ [Download url fileName]\<rparr>))"

definition handleDownloadAll :: "state \<Rightarrow> state" where
  "handleDownloadAll s =
     foldl (\<lambda>t img. handleDownload t (r_dataUrl img) (r_id img)) s (resizedImages s)"

text \<open>\<^verbatim>\<open>getScaledDimensions\<close>, the preview of the size of a variant.\<close>

definition getScaledDimensions :: "state \<Rightarrow> number \<Rightarrow> number \<Rightarrow> number \<times> number" where
  "getScaledDimensions s widthScale fileSizeScale =
     (case originalInfo s of
        None \<Rightarrow> (0, 0)
      | Some info \<Rightarrow>
          (let combinedScale = fmul widthScale fileSizeScale
           in (Math_round (fmul (of_nat (o_width info)) combinedScale),
               Math_round (fmul (of_nat (o_height info)) combinedScale))))"


text \<open>
  The states the component can be in: the handlers run on events, in any order and with
  any argument the page can supply. The width buttons and the check boxes pass the value
  of one of the options.
\<close>

inductive reachable :: "codec \<Rightarrow> state \<Rightarrow> bool" for enc :: codec where
  start: "reachable enc initial"
| file_change: "reachable enc s \<Longrightarrow> reachable enc (handleFileChange s files)"
| reader_loaded: "reachable enc s \<Longrightarrow> reachable enc (reader_onload s url)"
| img_loaded: "reachable enc s \<Longrightarrow> reachable enc (img_onload s file img)"
| width_click:
    "reachable enc s \<Longrightarrow> opt \<in> set WIDTH_SCALE_OPTIONS \<Longrightarrow>
     reachable enc (setSelectedWidthScale s (w_value opt))"
| file_size_toggle:
    "reachable enc s \<Longrightarrow> fopt \<in> set FILE_SIZE_OPTIONS \<Longrightarrow>
     reachable enc (handleFileSizeToggle s (f_value fopt))"
| convert: "reachable enc s \<Longrightarrow> reachable enc (handleConvert enc s)"
| download:
    "reachable enc s \<Longrightarrow> v \<in> set (resizedImages s) \<Longrightarrow>
     reachable enc (handleDownload s (r_dataUrl v) (r_id v))"
| download_all: "reachable enc s \<Longrightarrow> reachable enc (handleDownloadAll s)"


section \<open>The component of src/app/page.tsx\<close>

text \<open>
  The second source file, \<^verbatim>\<open>src/src/app/page.tsx\<close>, holds a component with the same
  \<^verbatim>\<open>resizeImage\<close>, word for word, and without the selections: it converts to the three
  file sizes as soon as the image has loaded.
\<close>

record ResizedImage_page =
  p_ratio :: string
  p_label :: string
  p_dataUrl :: string
  p_width :: number
  p_height :: number
  p_fileSize :: number

record state_page =
  p_originalImage :: "string option"
  p_originalInfo :: "OriginalInfo option"
  p_resizedImages :: "ResizedImage_page list"
  p_isProcessing :: bool
  p_effects :: "effect list"

definition handleFileChange_page :: "state_page \<Rightarrow> File option \<Rightarrow> state_page" where
  "handleFileChange_page s files =
     (case files of
        None \<Rightarrow> s
      | Some file \<Rightarrow>
          if \<not> startsWith (file_type file) ''image/''
          then s\<lparr>p_effects := p_effects s @ [Alert select_image_notice]\<rparr>
          else s\<lparr>p_isProcessing := True, p_resizedImages := [],
                 p_effects := p_effects s @ [ReadAsDataURL file]\<rparr>)"

definition reader_onload_page :: "state_page \<Rightarrow> string \<Rightarrow> state_page" where
  "reader_onload_page s url =
     s\<lparr>p_originalImage := Some url, p_effects := p_effects s @ [SetImageSrc url]\<rparr>"

definition size_suffix :: string where
  "size_suffix = [CHR 0xE3, CHR 0x82, CHR 0xB5, CHR 0xE3, CHR 0x82, CHR 0xA4, CHR 0xE3, CHR 0x82, CHR 0xBA]"

definition scales :: "(string \<times> number \<times> string) list" where
  "scales =
     [(''1/2'', fdiv 1 (Math_sqrt 2), ''1/2'' @ size_suffix),
      (''1/4'', fdiv 1 2, ''1/4'' @ size_suffix),
      (''1/8'', fdiv 1 (Math_sqrt 8), ''1/8'' @ size_suffix)]"

text \<open>The object pushed there: \<^verbatim>\<open>{ ratio, label, ...result }\<close>.\<close>

definition variant_page :: "string \<Rightarrow> string \<Rightarrow> Resized \<Rightarrow> ResizedImage_page" where
  "variant_page ratio label result =
     \<lparr>p_ratio = ratio, p_label = label, p_dataUrl = dataUrl result, p_width = width result,
      p_height = height result, p_fileSize = fileSize result\<rparr>"

fun scales_loop ::
  "codec \<Rightarrow> HTMLImageElement \<Rightarrow> string \<Rightarrow> (string \<times> number \<times> string) list \<Rightarrow>
   ResizedImage_page list \<Rightarrow> effect list \<Rightarrow> effect list \<times> ResizedImage_page list option" where
  "scales_loop enc img originalType [] results trace = (trace, Some results)"
| "scales_loop enc img originalType ((ratio, scale, label) # rest) results trace =
     (case resizeImage enc img scale originalType of
        (canvas, None) \<Rightarrow> (trace @ canvas, None)
      | (canvas, Some result) \<Rightarrow>
          scales_loop enc img originalType rest
            (results @ [variant_page ratio label result]) (trace @ canvas))"

definition img_onload_page ::
  "codec \<Rightarrow> state_page \<Rightarrow> File \<Rightarrow> HTMLImageElement \<Rightarrow> state_page" where
  "img_onload_page enc s file img =
     (let info = \<lparr>o_name = file_name file, o_width = img_width img, o_height = img_height img,
                  o_fileSize = file_size file, o_type = file_type file\<rparr>
      in case scales_loop enc img (file_type file) scales [] (p_effects s) of
           (trace, Some results) \<Rightarrow>
             s\<lparr>p_originalInfo := Some info, p_resizedImages := results,
               p_isProcessing := False, p_effects := trace\<rparr>
         | (trace, None) \<Rightarrow>
             s\<lparr>p_originalInfo := Some info, p_effects := trace @ [UncaughtTypeError]\<rparr>)"

definition handleDownload_page :: "state_page \<Rightarrow> string \<Rightarrow> string \<Rightarrow> state_page" where
  "handleDownload_page s url ratio =
     (case p_originalInfo s of
        None \<Rightarrow> s
      | Some info \<Rightarrow>
          (let extension = (if o_type info = ''image/png'' then ''png'' else ''jpg'');
               baseName = replace_extension (o_name info);
               fileName = baseName @ ''_'' @ replace_char CHR ''/'' ''-'' ratio @ ''.'' @ extension
           in s\<lparr>p_effects := p_effects s @ [Download url fileName]\<rparr>))"

definition handleDownloadAll_page :: "state_page \<Rightarrow> state_page" where
  "handleDownloadAll_page s =
     foldl (\<lambda>t img. handleDownload_page t (p_dataUrl img) (p_ratio img)) s (p_resizedImages s)"

definition initial_page :: state_page where
  "initial_page =
     \<lparr>p_originalImage = None, p_originalInfo = None, p_resizedImages = [],
      p_isProcessing = False, p_effects = []\<rparr>"


section \<open>Sample inputs\<close>

text \<open>A PNG file of one pixel, 70 bytes long, and a codec that answers with it.\<close>

definition sample_png :: "byte list" where
  "sample_png =
     [137, 80, 78, 71, 13, 10, 26, 10, 0, 0, 0, 13, 73, 72, 68, 82, 0, 0, 0, 1, 0, 0, 0, 1, 8,
      6, 0, 0, 0, 31, 21, 196, 137, 0, 0, 0, 13, 73, 68, 65, 84, 120, 218, 99, 100, 96, 248,
      95, 15, 0, 2, 135, 1, 128, 235, 71, 186, 146, 0, 0, 0, 0, 73, 69, 78, 68, 174, 66, 96,
      130]"

definition sample_codec :: codec where
  "sample_codec img w h mimeType quality = sample_png"

definition sample_file :: File where
  "sample_file = \<lparr>file_name = ''photo.png'', file_type = ''image/png'', file_size = 4096\<rparr>"

definition sample_text :: File where
  "sample_text = \<lparr>file_name = ''notes.txt'', file_type = ''text/plain'', file_size = 12\<rparr>"

definition sample_img :: HTMLImageElement where
  "sample_img = \<lparr>img_width = 1000, img_height = 800, img_src = ''data:image/png;base64,''\<rparr>"

definition sample_small :: HTMLImageElement where
  "sample_small = \<lparr>img_width = 90, img_height = 60, img_src = ''data:image/png;base64,''\<rparr>"

definition sample_dot :: HTMLImageElement where
  "sample_dot = \<lparr>img_width = 2, img_height = 2, img_src = ''data:image/png;base64,''\<rparr>"

definition sample_tiny :: HTMLImageElement where
  "sample_tiny = \<lparr>img_width = 3, img_height = 3, img_src = ''data:image/png;base64,''\<rparr>"

definition sample_variant :: ResizedImage where
  "sample_variant =
     \<lparr>r_id = ''100%-1-2'', r_label = variant_label ''100%'' ''1/2'', r_dataUrl = ''data:,'',
      r_width = 707, r_height = 566, r_fileSize = 0\<rparr>"

definition sample_variant_page :: ResizedImage_page where
  "sample_variant_page =
     \<lparr>p_ratio = ''1/2'', p_label = ''1/2'' @ size_suffix, p_dataUrl = ''data:,'',
      p_width = 707, p_height = 566, p_fileSize = 0\<rparr>"

text \<open>The component after the sample file has been chosen and has loaded.\<close>

definition sample_state :: state where
  "sample_state =
     img_onload
       (reader_onload (handleFileChange initial (Some sample_file)) ''data:image/png;base64,'')
       sample_file sample_img"

text \<open>The same with an image of two by two pixels: every variant is one pixel.\<close>

definition sample_state_dot :: state where
  "sample_state_dot =
     img_onload
       (reader_onload (handleFileChange initial (Some sample_file)) ''data:image/png;base64,'')
       sample_file sample_dot"

definition sample_state_page :: state_page where
  "sample_state_page =
     img_onload_page sample_codec
       (reader_onload_page (handleFileChange_page initial_page (Some sample_file))
          ''data:image/png;base64,'')
       sample_file sample_img"


section \<open>Rounding to binary64\<close>

text \<open>
  The exponent found by \<open>ilog2\<close> is the binary exponent, so \<open>rnd\<close> keeps 53 significant
  bits; it is the identity on the values that have no more, and it never crosses a power
  of two.
\<close>

lemma bitlen_powi_bounds:
  assumes "0 < p"
  shows "(2::rat) powi (bitlen p - 1) \<le> of_int p" and "of_int p < (2::rat) powi (bitlen p)"
proof -
  have a1: "1 \<le> bitlen p" using assms by (simp add: bitlen_alt_def)
  have l: "(2::rat) powi (bitlen p - 1) = of_int (2 ^ nat (bitlen p - 1))"
    using a1 by (simp add: power_int_def)
  have u: "(2::rat) powi (bitlen p) = of_int (2 ^ nat (bitlen p))"
    using a1 by (simp add: power_int_def)
  show "(2::rat) powi (bitlen p - 1) \<le> of_int p"
    unfolding l of_int_le_iff using bitlen_bounds[OF assms] by simp
  show "of_int p < (2::rat) powi (bitlen p)"
    unfolding u of_int_less_iff using bitlen_bounds[OF assms] by simp
qed

lemma ilog2_bounds:
  assumes "0 < x"
  shows "2 powi (ilog2 x) \<le> x" and "x < 2 powi (ilog2 x + 1)"
proof -
  obtain p q where pq: "quotient_of x = (p, q)" by (cases "quotient_of x")
  have q: "0 < q" using pq quotient_of_denom_pos by blast
  have x: "x = of_int p / of_int q" using pq quotient_of_div by blast
  have p: "0 < p" using assms q x by (simp add: zero_less_divide_iff)
  define a where "a = bitlen p"
  define b where "b = bitlen q"
  note pb = bitlen_powi_bounds[OF p, folded a_def]
  note qb = bitlen_powi_bounds[OF q, folded b_def]
  have qr: "(0::rat) < of_int q" using q by simp
  have "(2::rat) powi (a - b - 1) * of_int q < 2 powi (a - b - 1) * 2 powi b"
    using qb(2) by (simp add: mult_strict_left_mono)
  also have "\<dots> = 2 powi (a - 1)"
    by (simp add: power_int_add [symmetric])
  also have "\<dots> \<le> of_int p" by (rule pb(1))
  finally have lo: "(2::rat) powi (a - b - 1) < x"
    using qr by (simp add: x pos_less_divide_eq)
  have "of_int p < (2::rat) powi a" by (rule pb(2))
  also have "\<dots> = 2 powi (a - b + 1) * 2 powi (b - 1)"
    by (simp add: power_int_add [symmetric])
  also have "\<dots> \<le> 2 powi (a - b + 1) * of_int q"
    using qb(1) by (simp add: mult_left_mono)
  finally have hi: "x < (2::rat) powi (a - b + 1)"
    using qr by (simp add: x pos_divide_less_eq)
  have il: "ilog2 x = (if x < 2 powi (a - b) then a - b - 1 else a - b)"
    by (simp add: ilog2_def pq a_def b_def Let_def)
  show "2 powi (ilog2 x) \<le> x" using lo by (simp add: il)
  show "x < 2 powi (ilog2 x + 1)" using hi by (simp add: il)
qed

lemma two_powi_less_imp:
  assumes "(2::rat) powi m < 2 powi n"
  shows "m < n"
proof (rule ccontr)
  assume "\<not> m < n"
  then have "n \<le> m" by simp
  then have "(2::rat) powi n \<le> 2 powi m" by (rule power_int_increasing) simp
  with assms show False by simp
qed

lemma ilog2_unique:
  assumes "2 powi e \<le> x" and "x < 2 powi (e + 1)"
  shows "ilog2 x = e"
proof -
  have x: "0 < x" by (rule less_le_trans [OF _ assms(1)]) simp
  note b = ilog2_bounds[OF x]
  have "(2::rat) powi e < 2 powi (ilog2 x + 1)" using assms(1) b(2) by simp
  then have 1: "e < ilog2 x + 1" by (rule two_powi_less_imp)
  have "(2::rat) powi (ilog2 x) < 2 powi (e + 1)" using assms(2) b(1) by simp
  then have 2: "ilog2 x < e + 1" by (rule two_powi_less_imp)
  from 1 2 show ?thesis by simp
qed

lemma floor_rat_numeral_div [simp]:
  "\<lfloor>(numeral a :: rat) / numeral b\<rfloor> = numeral a div numeral b"
  by (metis floor_divide_of_int_eq of_int_numeral)

lemma rne_of_int [simp]: "rne (of_int n) = n"
  by (simp add: rne_def)

lemma rne_ge:
  assumes "of_int k \<le> y"
  shows "k \<le> rne y"
proof -
  have "k \<le> \<lfloor>y\<rfloor>" using assms by (simp add: le_floor_iff)
  then show ?thesis by (simp add: rne_def Let_def)
qed

lemma rnd_normal:
  assumes "2 powi e \<le> x" and "x < 2 powi (e + 1)" and "- 1022 \<le> e"
  shows "rnd x = of_int (rne (x / 2 powi (e - 52))) * 2 powi (e - 52)"
proof -
  have x: "0 < x" by (rule less_le_trans [OF _ assms(1)]) simp
  have "ilog2 x = e" using assms(1,2) by (rule ilog2_unique)
  then show ?thesis using x assms(3) by (simp add: rnd_def Let_def max_def)
qed

lemma rnd_ge_powi:
  assumes "2 powi k \<le> x" and "- 1022 \<le> k"
  shows "2 powi k \<le> rnd x"
proof -
  have x: "0 < x" by (rule less_le_trans [OF _ assms(1)]) simp
  define e where "e = ilog2 x"
  note b = ilog2_bounds[OF x, folded e_def]
  have "(2::rat) powi k < 2 powi (e + 1)" using assms(1) b(2) by simp
  then have ke: "k \<le> e" using two_powi_less_imp by fastforce
  then have e: "- 1022 \<le> e" using assms(2) by simp
  have r: "rnd x = of_int (rne (x / 2 powi (e - 52))) * 2 powi (e - 52)"
    using b e by (rule rnd_normal)
  have eq: "(2::rat) powi e = 4503599627370496 * 2 powi (e - 52)"
    using power_int_add [of "2::rat" 52 "e - 52"] by simp
  then have "4503599627370496 * 2 powi (e - 52) \<le> x" using b(1) by simp
  then have "of_int 4503599627370496 \<le> x / 2 powi (e - 52)"
    by (simp add: pos_le_divide_eq)
  then have "4503599627370496 \<le> rne (x / 2 powi (e - 52))" by (rule rne_ge)
  then have "(4503599627370496::rat) \<le> of_int (rne (x / 2 powi (e - 52)))" by simp
  then have "4503599627370496 * 2 powi (e - 52) \<le> rnd x"
    unfolding r by (intro mult_right_mono) simp_all
  then have "(2::rat) powi e \<le> rnd x" by (simp add: eq)
  moreover have "(2::rat) powi k \<le> 2 powi e" using ke by (intro power_int_increasing) simp_all
  ultimately show ?thesis by simp
qed

lemma rnd_exact:
  assumes m: "\<bar>m\<bar> < 2 ^ 53" and k: "- 1074 \<le> k"
  shows "rnd (of_int m * 2 powi k) = of_int m * 2 powi k"
proof (cases "m = 0")
  case True
  then show ?thesis by (simp add: rnd_def)
next
  case False
  define x :: rat where "x = of_int m * 2 powi k"
  have ax: "\<bar>x\<bar> = of_int \<bar>m\<bar> * 2 powi k" by (simp add: x_def abs_mult)
  have x0: "0 < \<bar>x\<bar>" using False by (simp add: x_def)
  define e where "e = max (ilog2 \<bar>x\<bar>) (- 1022)"
  note b = ilog2_bounds [OF x0]
  have "of_int \<bar>m\<bar> < (2::rat) ^ 53" using m by (metis of_int_less_iff of_int_numeral of_int_power)
  then have "\<bar>x\<bar> < 2 powi 53 * 2 powi k" unfolding ax by (intro mult_strict_right_mono) simp_all
  then have "\<bar>x\<bar> < 2 powi (53 + k)" by (simp add: power_int_add)
  with b(1) have "(2::rat) powi (ilog2 \<bar>x\<bar>) < 2 powi (53 + k)" by simp
  then have "ilog2 \<bar>x\<bar> < 53 + k" by (rule two_powi_less_imp)
  then have j: "0 \<le> k - e + 52" using k by (simp add: e_def)
  define j where "j = nat (k - e + 52)"
  have "(2::rat) powi k = 2 powi (k - e + 52) * 2 powi (e - 52)"
    by (simp add: power_int_add [symmetric])
  also have "(2::rat) powi (k - e + 52) = of_int (2 ^ j)" using j by (simp add: power_int_def j_def)
  finally have pk: "(2::rat) powi k = of_int (2 ^ j) * 2 powi (e - 52)" .
  have "\<bar>x\<bar> / 2 powi (e - 52) = of_int (\<bar>m\<bar> * 2 ^ j)"
    unfolding ax pk by simp
  then have "rne (\<bar>x\<bar> / 2 powi (e - 52)) = \<bar>m\<bar> * 2 ^ j" by (simp only: rne_of_int)
  then have "rnd x = sgn x * of_int (\<bar>m\<bar> * 2 ^ j) * 2 powi (e - 52)"
    using x0 by (simp add: rnd_def Let_def e_def)
  also have "\<dots> = sgn x * (of_int \<bar>m\<bar> * 2 powi k)" by (simp add: pk)
  also have "\<dots> = sgn x * \<bar>x\<bar>" by (simp only: ax)
  also have "\<dots> = x" by (simp add: sgn_mult_abs)
  finally show ?thesis by (simp only: x_def)
qed

lemma rnd_le_0_iff:
  assumes "x \<le> 0 \<or> 2 powi k \<le> x" and "- 1022 \<le> k"
  shows "rnd x \<le> 0 \<longleftrightarrow> x \<le> 0"
proof (cases "x \<le> 0")
  case True
  have "0 \<le> rne (\<bar>x\<bar> / 2 powi (max (ilog2 \<bar>x\<bar>) (- 1022) - 52))"
    by (rule rne_ge) simp
  then have "(0::rat) \<le> of_int (rne (\<bar>x\<bar> / 2 powi (max (ilog2 \<bar>x\<bar>) (- 1022) - 52)))
      * 2 powi (max (ilog2 \<bar>x\<bar>) (- 1022) - 52)"
    by simp
  then have "rnd x \<le> 0" using True
    by (cases "x = 0") (simp_all add: rnd_def Let_def sgn_if mult_le_0_iff)
  with True show ?thesis by simp
next
  case False
  with assms(1) have "2 powi k \<le> x" by simp
  then have "2 powi k \<le> rnd x" using assms(2) by (rule rnd_ge_powi)
  moreover have "(0::rat) < 2 powi k" by simp
  ultimately have "0 < rnd x" by (rule less_le_trans [rotated])
  with False show ?thesis by simp
qed


section \<open>The values of the options\<close>

text \<open>
  The literals and quotients of the two option tables, as the binary64 values they
  denote, and the fifteen products of a width scale and a file-size scale.
\<close>

lemma rnd_1: "rnd 1 = 1"
  using rnd_exact [of 1 0] by simp

lemma rnd_half: "rnd (1 / 2) = 1 / 2"
  using rnd_exact [of 1 "- 1"] by simp

lemma fdiv_1_2: "fdiv 1 2 = 1 / 2"
  using rnd_exact [of 1 "- 1"] by (simp add: fdiv_def)

lemma rnd_9_10: "rnd (9 / 10) = 8106479329266893 / 9007199254740992"
  by (simp add: rnd_normal [where e = "-1"] rne_def Let_def)

lemma rnd_8_10: "rnd (4 / 5) = 3602879701896397 / 4503599627370496"
  by (simp add: rnd_normal [where e = "-1"] rne_def Let_def)

lemma rnd_7_10: "rnd (7 / 10) = 3152519739159347 / 4503599627370496"
  by (simp add: rnd_normal [where e = "-1"] rne_def Let_def)

lemma rnd_92_100: "rnd (23 / 25) = 8286623314361713 / 9007199254740992"
  by (simp add: rnd_normal [where e = "-1"] rne_def Let_def)

lemma Math_sqrt_2: "Math_sqrt 2 = 6369051672525773 / 4503599627370496"
  by code_simp

lemma Math_sqrt_8: "Math_sqrt 8 = 6369051672525773 / 2251799813685248"
  by code_simp

lemma Math_sqrt_nearest:
  "(Math_sqrt 2 - 2 powi (- 53)) ^ 2 < 2" "2 < (Math_sqrt 2 + 2 powi (- 53)) ^ 2"
  "(Math_sqrt 8 - 2 powi (- 52)) ^ 2 < 8" "8 < (Math_sqrt 8 + 2 powi (- 52)) ^ 2"
  by (simp_all add: Math_sqrt_2 Math_sqrt_8 power2_eq_square)

lemma fdiv_1_sqrt_2: "fdiv 1 (Math_sqrt 2) = 1592262918131443 / 2251799813685248"
  by (simp add: fdiv_def Math_sqrt_2 rnd_normal [where e = "-1"] rne_def Let_def)

lemma fdiv_1_sqrt_8: "fdiv 1 (Math_sqrt 8) = 1592262918131443 / 4503599627370496"
  by (simp add: fdiv_def Math_sqrt_8 rnd_normal [where e = "-2"] rne_def Let_def)

lemma width_values:
  "map w_value WIDTH_SCALE_OPTIONS =
     [1, 8106479329266893 / 9007199254740992, 3602879701896397 / 4503599627370496, 3152519739159347 / 4503599627370496, 1 / 2]"
  by (simp add: WIDTH_SCALE_OPTIONS_def rnd_1 rnd_9_10 rnd_8_10 rnd_7_10 rnd_half)

lemma file_size_values:
  "map f_value FILE_SIZE_OPTIONS = [1592262918131443 / 2251799813685248, 1 / 2, 1592262918131443 / 4503599627370496]"
  by (simp add: FILE_SIZE_OPTIONS_def fdiv_1_sqrt_2 fdiv_1_2 fdiv_1_sqrt_8)

lemma file_size_values_descending: "sorted_wrt (>) (map f_value FILE_SIZE_OPTIONS)"
  by (simp add: file_size_values)

lemma fmul_w0_f0: "fmul (1) (1592262918131443 / 2251799813685248) = 1592262918131443 / 2251799813685248"
  by (simp add: fmul_def rnd_normal [where e = "-1"] rne_def Let_def)

lemma fmul_w0_f1: "fmul (1) (1 / 2) = 1 / 2"
  by (simp add: fmul_def rnd_normal [where e = "-1"] rne_def Let_def)

lemma fmul_w0_f2: "fmul (1) (1592262918131443 / 4503599627370496) = 1592262918131443 / 4503599627370496"
  by (simp add: fmul_def rnd_normal [where e = "-2"] rne_def Let_def)

lemma fmul_w1_f0: "fmul (8106479329266893 / 9007199254740992) (1592262918131443 / 2251799813685248) = 5732146505273195 / 9007199254740992"
  by (simp add: fmul_def rnd_normal [where e = "-1"] rne_def Let_def)

lemma fmul_w1_f1: "fmul (8106479329266893 / 9007199254740992) (1 / 2) = 8106479329266893 / 18014398509481984"
  by (simp add: fmul_def rnd_normal [where e = "-2"] rne_def Let_def)

lemma fmul_w1_f2: "fmul (8106479329266893 / 9007199254740992) (1592262918131443 / 4503599627370496) = 5732146505273195 / 18014398509481984"
  by (simp add: fmul_def rnd_normal [where e = "-2"] rne_def Let_def)

lemma fmul_w2_f0: "fmul (3602879701896397 / 4503599627370496) (1592262918131443 / 2251799813685248) = 2547620669010309 / 4503599627370496"
  by (simp add: fmul_def rnd_normal [where e = "-1"] rne_def Let_def)

lemma fmul_w2_f1: "fmul (3602879701896397 / 4503599627370496) (1 / 2) = 3602879701896397 / 9007199254740992"
  by (simp add: fmul_def rnd_normal [where e = "-2"] rne_def Let_def)

lemma fmul_w2_f2: "fmul (3602879701896397 / 4503599627370496) (1592262918131443 / 4503599627370496) = 2547620669010309 / 9007199254740992"
  by (simp add: fmul_def rnd_normal [where e = "-2"] rne_def Let_def)

lemma fmul_w3_f0: "fmul (3152519739159347 / 4503599627370496) (1592262918131443 / 2251799813685248) = 557292021346005 / 1125899906842624"
  by (simp add: fmul_def rnd_normal [where e = "-2"] rne_def Let_def)

lemma fmul_w3_f1: "fmul (3152519739159347 / 4503599627370496) (1 / 2) = 3152519739159347 / 9007199254740992"
  by (simp add: fmul_def rnd_normal [where e = "-2"] rne_def Let_def)

lemma fmul_w3_f2: "fmul (3152519739159347 / 4503599627370496) (1592262918131443 / 4503599627370496) = 557292021346005 / 2251799813685248"
  by (simp add: fmul_def rnd_normal [where e = "-3"] rne_def Let_def)

lemma fmul_w4_f0: "fmul (1 / 2) (1592262918131443 / 2251799813685248) = 1592262918131443 / 4503599627370496"
  by (simp add: fmul_def rnd_normal [where e = "-2"] rne_def Let_def)

lemma fmul_w4_f1: "fmul (1 / 2) (1 / 2) = 1 / 4"
  by (simp add: fmul_def rnd_normal [where e = "-2"] rne_def Let_def)

lemma fmul_w4_f2: "fmul (1 / 2) (1592262918131443 / 4503599627370496) = 1592262918131443 / 9007199254740992"
  by (simp add: fmul_def rnd_normal [where e = "-3"] rne_def Let_def)

lemmas combined_values = fmul_w0_f0 fmul_w0_f1 fmul_w0_f2 fmul_w1_f0 fmul_w1_f1 fmul_w1_f2 fmul_w2_f0 fmul_w2_f1 fmul_w2_f2 fmul_w3_f0 fmul_w3_f1 fmul_w3_f2 fmul_w4_f0 fmul_w4_f1 fmul_w4_f2

lemma combined_scale_range:
  assumes "w \<in> set (map w_value WIDTH_SCALE_OPTIONS)" and "f \<in> set (map f_value FILE_SIZE_OPTIONS)"
  shows "1 / 6 \<le> fmul w f \<and> fmul w f \<le> 1"
proof -
  have "\<forall>w \<in> set (map w_value WIDTH_SCALE_OPTIONS). \<forall>f \<in> set (map f_value FILE_SIZE_OPTIONS).
      1 / 6 \<le> fmul w f \<and> fmul w f \<le> 1"
    unfolding width_values file_size_values by (simp add: combined_values)
  with assms show ?thesis by blast
qed

lemma at_least_one_pixel:
  assumes "1 / 6 \<le> c" and "3 \<le> n"
  shows "1 \<le> Math_round (fmul (of_nat n) c)"
proof -
  have "(3::rat) \<le> of_nat n" using assms(2) by (metis of_nat_le_iff of_nat_numeral)
  then have "3 * (1 / 6) \<le> of_nat n * c" using assms(1) by (intro mult_mono) simp_all
  then have "2 powi (- 1) \<le> of_nat n * c" by (simp add: power_int_minus)
  then have "2 powi (- 1) \<le> rnd (of_nat n * c)" by (rule rnd_ge_powi) simp
  then have "1 / 2 \<le> fmul (of_nat n) c" by (simp add: fmul_def power_int_minus)
  then have "(1::int) \<le> \<lfloor>fmul (of_nat n) c + 1 / 2\<rfloor>" by (simp add: le_floor_iff)
  then show ?thesis unfolding Math_round_def by (metis of_int_1 of_int_le_iff)
qed

lemma find_full_width:
  "find (\<lambda>x. w_value x = 1) WIDTH_SCALE_OPTIONS = Some \<lparr>w_value = 1, w_label = ''100%''\<rparr>"
  by (simp add: WIDTH_SCALE_OPTIONS_def rnd_1)

lemma fmul_1000_800:
  "fmul 1000 (1592262918131443 / 2251799813685248) = 6219777023950949 / 8796093022208"
  "fmul 1000 (1 / 2) = 500"
  "fmul 1000 (1592262918131443 / 4503599627370496) = 6219777023950949 / 17592186044416"
  "fmul 800 (1592262918131443 / 2251799813685248) = 4975821619160759 / 8796093022208"
  "fmul 800 (1 / 2) = 400"
  "fmul 800 (1592262918131443 / 4503599627370496) = 4975821619160759 / 17592186044416"
  by (simp_all add: fmul_def rnd_normal [where e = 9] rnd_normal [where e = 8] rne_def Let_def)

lemma fmul_2:
  "fmul 2 (1592262918131443 / 2251799813685248) = 1592262918131443 / 1125899906842624"
  "fmul 2 (1 / 2) = 1"
  "fmul 2 (1592262918131443 / 4503599627370496) = 1592262918131443 / 2251799813685248"
  by (simp_all add: fmul_def rnd_normal [where e = 0] rnd_normal [where e = "- 1"] rne_def Let_def)


section \<open>Sorting the selection\<close>

text \<open>
  On the values of the file-size options the comparator of the source has the sign of
  the exact difference, so the sort puts them in descending order.
\<close>

lemma descending_file_size_values:
  assumes "x \<in> set (map f_value FILE_SIZE_OPTIONS)" and "y \<in> set (map f_value FILE_SIZE_OPTIONS)"
  shows "(descending x y \<le> 0) = (y \<le> x)"
proof -
  have "y - x \<le> 0 \<or> 2 powi (- 3) \<le> y - x"
    using assms unfolding file_size_values by auto
  then have "rnd (y - x) \<le> 0 \<longleftrightarrow> y - x \<le> 0" by (rule rnd_le_0_iff) simp
  then show ?thesis by (simp add: descending_def fsub_def)
qed

lemma set_insert_by [simp]: "set (insert_by cmp x ys) = insert x (set ys)"
  by (induction ys) auto

lemma length_insert_by [simp]: "length (insert_by cmp x ys) = Suc (length ys)"
  by (induction ys) auto

lemma distinct_insert_by [simp]: "distinct (insert_by cmp x ys) \<longleftrightarrow> x \<notin> set ys \<and> distinct ys"
  by (induction ys) auto

lemma sort_by_Nil [simp]: "sort_by cmp [] = []"
  by (simp add: sort_by_def)

lemma sort_by_Cons: "sort_by cmp (x # xs) = insert_by cmp x (sort_by cmp xs)"
  by (simp add: sort_by_def)

lemma set_sort_by [simp]: "set (sort_by cmp xs) = set xs"
  by (induction xs) (simp_all add: sort_by_Cons)

lemma length_sort_by [simp]: "length (sort_by cmp xs) = length xs"
  by (induction xs) (simp_all add: sort_by_Cons)

lemma distinct_sort_by [simp]: "distinct (sort_by cmp xs) = distinct xs"
  by (induction xs) (simp_all add: sort_by_Cons)

lemma sorted_insert_by:
  fixes x :: number
  assumes "\<And>y. y \<in> set ys \<Longrightarrow> (cmp x y \<le> 0) = (y \<le> x)" and "sorted_wrt (\<ge>) ys"
  shows "sorted_wrt (\<ge>) (insert_by cmp x ys)"
  using assms
proof (induction ys)
  case Nil
  then show ?case by simp
next
  case (Cons y ys)
  show ?case
  proof (cases "cmp x y \<le> 0")
    case True
    then have "y \<le> x" using Cons.prems(1) by simp
    then show ?thesis using True Cons.prems(2) by auto
  next
    case False
    then have "x \<le> y" using Cons.prems(1) [of y] by simp
    moreover have "sorted_wrt (\<ge>) (insert_by cmp x ys)"
      using Cons.IH Cons.prems by simp
    ultimately show ?thesis using False Cons.prems(2) by auto
  qed
qed

lemma sorted_sort_by:
  fixes xs :: "number list"
  assumes "\<And>x y. x \<in> set xs \<Longrightarrow> y \<in> set xs \<Longrightarrow> (cmp x y \<le> 0) = (y \<le> x)"
  shows "sorted_wrt (\<ge>) (sort_by cmp xs)"
  using assms
proof (induction xs)
  case Nil
  then show ?case by simp
next
  case (Cons x xs)
  have "sorted_wrt (\<ge>) (sort_by cmp xs)" using Cons by simp
  then show ?case unfolding sort_by_Cons
    by (rule sorted_insert_by [rotated]) (simp add: Cons.prems)
qed

lemma sort_by_sorted:
  fixes xs :: "number list"
  assumes "\<And>x y. x \<in> set xs \<Longrightarrow> y \<in> set xs \<Longrightarrow> (cmp x y \<le> 0) = (y \<le> x)"
    and "sorted_wrt (\<ge>) xs"
  shows "sort_by cmp xs = xs"
  using assms
proof (induction xs)
  case Nil
  then show ?case by simp
next
  case (Cons x xs)
  have "sort_by cmp xs = xs" using Cons by simp
  then show ?case using Cons.prems by (cases xs) (simp_all add: sort_by_Cons)
qed

lemma strict_descending_iff:
  fixes xs :: "number list"
  shows "sorted_wrt (>) xs \<longleftrightarrow> sorted_wrt (\<ge>) xs \<and> distinct xs"
  by (induction xs) (auto simp: order_less_le)

lemma strict_descending_unique:
  fixes xs ys :: "number list"
  assumes "sorted_wrt (>) xs" and "sorted_wrt (>) ys" and "set xs = set ys"
  shows "xs = ys"
proof -
  have "sorted_wrt (<) (rev xs)" and "sorted_wrt (<) (rev ys)"
    using assms(1,2) by (simp_all add: sorted_wrt_rev)
  then have "rev xs = rev ys" using assms(3) by (intro strict_sorted_equal) simp_all
  then show ?thesis by simp
qed

lemma sort_descending_strict:
  assumes "set xs \<subseteq> set (map f_value FILE_SIZE_OPTIONS)" and "distinct xs"
  shows "sorted_wrt (>) (sort_by descending xs)"
proof -
  have "sorted_wrt (\<ge>) (sort_by descending xs)"
    by (rule sorted_sort_by) (use assms(1) in \<open>auto intro!: descending_file_size_values\<close>)
  then show ?thesis using assms(2) by (simp add: strict_descending_iff)
qed

lemma sort_descending_id:
  assumes "set xs \<subseteq> set (map f_value FILE_SIZE_OPTIONS)" and "sorted_wrt (>) xs"
  shows "sort_by descending xs = xs"
  by (rule sort_by_sorted)
    (use assms in \<open>auto intro!: descending_file_size_values simp: strict_descending_iff\<close>)

lemma toggle_selection:
  "selectedFileSizeScales (handleFileSizeToggle s f) =
     (if f \<in> set (selectedFileSizeScales s) then filter (\<lambda>x. x \<noteq> f) (selectedFileSizeScales s)
      else sort_by descending (selectedFileSizeScales s @ [f]))"
  by (simp add: handleFileSizeToggle_def Let_def)

lemma toggle_invariant:
  assumes "sorted_wrt (>) (selectedFileSizeScales s)"
    and "set (selectedFileSizeScales s) \<subseteq> set (map f_value FILE_SIZE_OPTIONS)"
    and "f \<in> set (map f_value FILE_SIZE_OPTIONS)"
  shows "sorted_wrt (>) (selectedFileSizeScales (handleFileSizeToggle s f))"
    and "set (selectedFileSizeScales (handleFileSizeToggle s f)) \<subseteq> set (map f_value FILE_SIZE_OPTIONS)"
proof -
  let ?xs = "selectedFileSizeScales s"
  have d: "distinct ?xs" using assms(1) by (simp add: strict_descending_iff)
  show "sorted_wrt (>) (selectedFileSizeScales (handleFileSizeToggle s f))"
  proof (cases "f \<in> set ?xs")
    case True
    then show ?thesis using assms(1) by (simp add: toggle_selection sorted_wrt_filter)
  next
    case False
    have "sorted_wrt (>) (sort_by descending (?xs @ [f]))"
      by (rule sort_descending_strict) (use assms d False in auto)
    then show ?thesis using False by (simp add: toggle_selection)
  qed
  show "set (selectedFileSizeScales (handleFileSizeToggle s f)) \<subseteq> set (map f_value FILE_SIZE_OPTIONS)"
    using assms(2,3) by (auto simp: toggle_selection)
qed

lemma toggle_twice:
  assumes "sorted_wrt (>) (selectedFileSizeScales s)"
    and "set (selectedFileSizeScales s) \<subseteq> set (map f_value FILE_SIZE_OPTIONS)"
    and "f \<in> set (map f_value FILE_SIZE_OPTIONS)"
  shows "handleFileSizeToggle (handleFileSizeToggle s f) f = s"
proof -
  let ?t = "handleFileSizeToggle s f"
  note i = toggle_invariant [OF assms]
  note j = toggle_invariant [OF i assms(3)]
  have "set (selectedFileSizeScales (handleFileSizeToggle ?t f)) = set (selectedFileSizeScales s)"
    by (auto simp: toggle_selection)
  with j(1) assms(1)
  have "selectedFileSizeScales (handleFileSizeToggle ?t f) = selectedFileSizeScales s"
    by (rule strict_descending_unique)
  then show ?thesis by (simp add: handleFileSizeToggle_def)
qed

lemma initial_selection:
  "selectedFileSizeScales initial = map f_value FILE_SIZE_OPTIONS"
  by (simp add: initial_def FILE_SIZE_OPTIONS_def)

lemma toggles_invariant:
  assumes "set ts \<subseteq> set (map f_value FILE_SIZE_OPTIONS)"
  shows "sorted_wrt (>) (selectedFileSizeScales (foldl handleFileSizeToggle initial ts))
    \<and> set (selectedFileSizeScales (foldl handleFileSizeToggle initial ts))
        \<subseteq> set (map f_value FILE_SIZE_OPTIONS)"
  using assms
proof (induction ts rule: rev_induct)
  case Nil
  then show ?case by (simp add: initial_selection file_size_values_descending)
next
  case (snoc t ts)
  then have i: "sorted_wrt (>) (selectedFileSizeScales (foldl handleFileSizeToggle initial ts))"
      "set (selectedFileSizeScales (foldl handleFileSizeToggle initial ts))
        \<subseteq> set (map f_value FILE_SIZE_OPTIONS)"
    and t: "t \<in> set (map f_value FILE_SIZE_OPTIONS)"
    by simp_all
  show ?case using toggle_invariant [OF i t] by simp
qed


section \<open>Data URLs\<close>

text \<open>
  The text after the comma of a data URL of the canvas is the base64 text of the encoded
  file, decoding gives the file back, and \<^verbatim>\<open>resizeImage\<close> never throws.
\<close>

lemma split_no_separator: "c \<notin> set xs \<Longrightarrow> split c xs = [xs]"
  by (induction xs) auto

lemma split_append_separator: "c \<notin> set xs \<Longrightarrow> split c (xs @ c # ys) = xs # split c ys"
  by (induction xs) auto

lemma base64_char_in_alphabet: "base64_char i \<in> set base64_alphabet"
  unfolding base64_char_def by (rule nth_mem) (simp add: base64_alphabet_def)

lemma base64_char_not_comma [simp]:
  "base64_char i \<noteq> CHR '',''" "CHR '','' \<noteq> base64_char i"
  using base64_char_in_alphabet [of i] by (auto simp: base64_alphabet_def)

lemma base64_char_not_pad [simp]:
  "base64_char i \<noteq> CHR ''=''" "CHR ''='' \<noteq> base64_char i"
  using base64_char_in_alphabet [of i] by (auto simp: base64_alphabet_def)

lemma comma_notin_base64_encode: "CHR '','' \<notin> set (base64_encode bs)"
  by (induction bs rule: base64_encode.induct) simp_all

lemma length_base64_encode: "length (base64_encode bs) = 4 * ((length bs + 2) div 3)"
proof (induction bs rule: base64_encode.induct)
  case (4 a b c bs)
  have "(length (a # b # c # bs) + 2) div 3 = Suc ((length bs + 2) div 3)" by simp
  then show ?case using 4 by simp
qed simp_all

lemma index_split_toDataURL:
  assumes "CHR '','' \<notin> set mimeType"
  shows "index (split CHR '','' (toDataURL enc img w h mimeType quality)) 1 =
    Some (if w = 0 \<or> h = 0 then [] else base64_encode (enc img w h mimeType quality))"
proof (cases "w = 0 \<or> h = 0")
  case True
  then show ?thesis by (auto simp: toDataURL_def)
next
  case False
  have "split CHR '','' ((''data:'' @ mimeType @ '';base64'') @ CHR '','' # base64_encode (enc img w h mimeType quality))
    = (''data:'' @ mimeType @ '';base64'') # split CHR '','' (base64_encode (enc img w h mimeType quality))"
    by (rule split_append_separator) (use assms in simp)
  then show ?thesis using False
    by (simp add: toDataURL_def split_no_separator comma_notin_base64_encode)
qed

lemma base64_value_char: "base64_value (base64_char i) = Some (i mod 64)"
proof -
  have d: "distinct base64_alphabet" by (simp add: base64_alphabet_def)
  have l: "length base64_alphabet = length [0 ..< 64]" by (simp add: base64_alphabet_def)
  have "map_of (zip base64_alphabet [0 ..< 64]) (base64_alphabet ! (i mod 64)) = Some ([0 ..< 64] ! (i mod 64))"
    using l d by (rule map_of_zip_nth) simp
  then show ?thesis by (simp add: base64_value_def base64_char_def)
qed

lemma base64_value_A: "base64_value CHR ''A'' = Some (0 mod 64)"
  using base64_value_char [of 0] by (simp add: base64_char_def base64_alphabet_def)

lemma hi_lo:
  fixes r t :: nat
  assumes "t < n"
  shows "(r * n + t) div n = r" and "(r * n + t) mod n = t"
  using assms by simp_all

lemma sextets:
  fixes x y z :: nat
  assumes "x < 256" and "y < 256" and "z < 256"
  shows "(x div 4) mod 64 * 4 + (x mod 4 * 16 + y div 16) mod 64 div 16 = x"
    and "(x mod 4 * 16 + y div 16) mod 64 mod 16 * 16 + (y mod 16 * 4 + z div 64) mod 64 div 4 = y"
    and "(y mod 16 * 4 + z div 64) mod 64 mod 4 * 64 + z mod 64 mod 64 = z"
proof -
  have x4: "x div 4 < 64" and y16: "y div 16 < 16" and z64: "z div 64 < 4"
    using assms by simp_all
  have xm: "x mod 4 < 4" and ym: "y mod 16 < 16" by simp_all
  have b1: "x mod 4 * 16 + y div 16 < 64" using xm y16 by linarith
  have b2: "y mod 16 * 4 + z div 64 < 64" using ym z64 by linarith
  show "(x div 4) mod 64 * 4 + (x mod 4 * 16 + y div 16) mod 64 div 16 = x"
    using x4 b1 y16 by (simp add: hi_lo)
  show "(x mod 4 * 16 + y div 16) mod 64 mod 16 * 16 + (y mod 16 * 4 + z div 64) mod 64 div 4 = y"
    using b1 b2 y16 z64 by (simp add: hi_lo)
  show "(y mod 16 * 4 + z div 64) mod 64 mod 4 * 64 + z mod 64 mod 64 = z"
    using b2 z64 by (simp add: hi_lo)
qed

lemma sextets_short:
  fixes x y :: nat
  assumes "x < 256" and "y < 256"
  shows "(x div 4) mod 64 * 4 + (x mod 4 * 16) mod 64 div 16 = x"
    and "(x mod 4 * 16 + y div 16) mod 64 mod 16 * 16 + (y mod 16 * 4) mod 64 div 4 = y"
proof -
  have x4: "x div 4 < 64" and y16: "y div 16 < 16" using assms by simp_all
  have xm: "x mod 4 < 4" and ym: "y mod 16 < 16" by simp_all
  have b0: "x mod 4 * 16 < 64" using xm by linarith
  have b1: "x mod 4 * 16 + y div 16 < 64" using xm y16 by linarith
  have b2: "y mod 16 * 4 < 64" using ym by linarith
  show "(x div 4) mod 64 * 4 + (x mod 4 * 16) mod 64 div 16 = x"
    using x4 b0 by simp
  show "(x mod 4 * 16 + y div 16) mod 64 mod 16 * 16 + (y mod 16 * 4) mod 64 div 4 = y"
    using b1 b2 y16 by (simp add: hi_lo)
qed

lemma decode_group_encode:
  fixes a b c :: byte
  shows "decode_group (base64_char (unat a div 4)) (base64_char (unat a mod 4 * 16 + unat b div 16))
     (base64_char (unat b mod 16 * 4 + unat c div 64)) (base64_char (unat c mod 64)) = Some [a, b, c]"
proof -
  have "unat a < 256" "unat b < 256" "unat c < 256"
    using unsigned_less [of a] unsigned_less [of b] unsigned_less [of c] by simp_all
  note s = sextets [OF this]
  have "decode_group (base64_char (unat a div 4)) (base64_char (unat a mod 4 * 16 + unat b div 16))
     (base64_char (unat b mod 16 * 4 + unat c div 64)) (base64_char (unat c mod 64))
     = Some [of_nat (unat a), of_nat (unat b), of_nat (unat c)]"
    unfolding decode_group_def base64_value_char by (simp only: s prod.case option.case)
  then show ?thesis by simp
qed

lemma decode_group_encode_2:
  fixes a b :: byte
  shows "map_option (take 2) (decode_group (base64_char (unat a div 4))
     (base64_char (unat a mod 4 * 16 + unat b div 16)) (base64_char (unat b mod 16 * 4)) CHR ''A'')
     = Some [a, b]"
proof -
  have "unat a < 256" "unat b < 256"
    using unsigned_less [of a] unsigned_less [of b] by simp_all
  note s = sextets(1) [OF this \<open>unat b < 256\<close>] sextets_short(2) [OF this]
  have "decode_group (base64_char (unat a div 4))
     (base64_char (unat a mod 4 * 16 + unat b div 16)) (base64_char (unat b mod 16 * 4)) CHR ''A''
     = Some [of_nat (unat a), of_nat (unat b),
         of_nat ((unat b mod 16 * 4) mod 64 mod 4 * 64 + 0 mod 64)]"
    unfolding decode_group_def base64_value_char base64_value_A
    by (simp only: s prod.case option.case)
  then show ?thesis by simp
qed

lemma decode_group_encode_1:
  fixes a :: byte
  shows "map_option (take 1) (decode_group (base64_char (unat a div 4))
     (base64_char (unat a mod 4 * 16)) CHR ''A'' CHR ''A'') = Some [a]"
proof -
  have "unat a < 256" using unsigned_less [of a] by simp
  note s = sextets_short(1) [OF this this]
  have "decode_group (base64_char (unat a div 4)) (base64_char (unat a mod 4 * 16)) CHR ''A'' CHR ''A''
     = Some [of_nat (unat a), of_nat ((unat a mod 4 * 16) mod 64 mod 16 * 16 + 0 mod 64 div 4),
         of_nat (0 mod 64 mod 4 * 64 + 0 mod 64)]"
    unfolding decode_group_def base64_value_char base64_value_A
    by (simp only: s prod.case option.case)
  then show ?thesis by simp
qed

lemma base64_roundtrip: "base64_decode (base64_encode bs) = Some bs"
proof (induction bs rule: base64_encode.induct)
  case 1
  then show ?case by simp
next
  case (2 a)
  then show ?case using decode_group_encode_1 [of a] by simp
next
  case (3 a b)
  then show ?case using decode_group_encode_2 [of a b] by simp
next
  case (4 a b c bs)
  then show ?case by (simp add: decode_group_encode)
qed

lemma decoded_payload_toDataURL:
  assumes "CHR '','' \<notin> set mimeType"
  shows "decoded_payload (toDataURL enc img w h mimeType quality) =
    Some (if w = 0 \<or> h = 0 then [] else enc img w h mimeType quality)"
  unfolding decoded_payload_def index_split_toDataURL [OF assms]
  by (simp add: base64_roundtrip)

lemma file_size_estimate:
  assumes "3 * n < 2 ^ 53"
  shows "Math_round (fdiv (fmul (of_nat n) 3) 4) = of_int ((3 * int n + 2) div 4)"
proof -
  have "int (3 * n) < 2 ^ 53" using assms by simp
  then have m: "\<bar>3 * int n\<bar> < 2 ^ 53" by simp
  have "fmul (of_nat n) 3 = rnd (of_int (3 * int n) * 2 powi 0)"
    by (simp add: fmul_def mult.commute)
  also have "\<dots> = of_int (3 * int n) * 2 powi 0" using m by (rule rnd_exact) simp
  finally have 1: "fmul (of_nat n) 3 = of_int (3 * int n)" by simp
  have "fdiv (of_int (3 * int n)) 4 = rnd (of_int (3 * int n) * 2 powi (- 2))"
    by (simp add: fdiv_def power_int_minus)
  also have "\<dots> = of_int (3 * int n) * 2 powi (- 2)" using m by (rule rnd_exact) simp
  finally have 2: "fdiv (of_int (3 * int n)) 4 = of_int (3 * int n) / 4"
    by (simp add: power_int_minus)
  have "(of_int (3 * int n) / 4 + 1 / 2 :: rat) = of_int (3 * int n + 2) / of_int 4"
    by (simp add: add_divide_distrib)
  then have "\<lfloor>(of_int (3 * int n) / 4 + 1 / 2 :: rat)\<rfloor> = (3 * int n + 2) div 4"
    by (simp only: floor_divide_of_int_eq)
  then show ?thesis unfolding Math_round_def 1 2 by simp
qed

lemma estimate_of_payload:
  assumes "n < 2 ^ 50"
  shows "Math_round (fdiv (fmul (of_nat (4 * ((n + 2) div 3))) 3) 4) = of_nat (3 * ((n + 2) div 3))"
proof -
  let ?g = "(n + 2) div 3"
  have "?g \<le> n + 2" by simp
  then have "3 * (4 * ?g) < 2 ^ 53" using assms by simp
  then have "Math_round (fdiv (fmul (of_nat (4 * ?g)) 3) 4) = of_int ((3 * int (4 * ?g) + 2) div 4)"
    by (rule file_size_estimate)
  also have "(3 * int (4 * ?g) + 2) div 4 = int (3 * ?g)" by simp
  finally show ?thesis by simp
qed

lemma estimate_of_96: "Math_round (fdiv (fmul 96 3) 4) = 72"
  using file_size_estimate [of 96] by simp

lemma resizeImage_eq:
  "resizeImage enc img scale originalType =
     (let newWidth = Math_round (fmul (of_nat (img_width img)) scale);
          newHeight = Math_round (fmul (of_nat (img_height img)) scale);
          mimeType = (if originalType = ''image/png'' then ''image/png'' else ''image/jpeg'');
          quality = (if originalType = ''image/png'' then None else Some (rnd (92 / 100)));
          base64 = (if newWidth = 0 \<or> newHeight = 0 then []
                    else base64_encode (enc img newWidth newHeight mimeType quality))
      in ([DrawImage img newWidth newHeight, ToDataURL mimeType quality],
          Some \<lparr>dataUrl = toDataURL enc img newWidth newHeight mimeType quality,
                width = newWidth, height = newHeight,
                fileSize = Math_round (fdiv (fmul (of_nat (length base64)) 3) 4)\<rparr>))"
proof (cases "originalType = ''image/png''")
  case True
  have "CHR '','' \<notin> set ''image/png''" by simp
  note index_split_toDataURL [OF this]
  then show ?thesis using True by (simp add: resizeImage_def Let_def)
next
  case False
  have "CHR '','' \<notin> set ''image/jpeg''" by simp
  note index_split_toDataURL [OF this]
  then show ?thesis using False by (simp add: resizeImage_def Let_def)
qed

lemma base64_sample_png:
  "base64_encode sample_png =
     ''iVBORw0KGgoAAAANSUhEUgAAAAEAAAABCAYAAAAfFcSJAAAADUlEQVR42mNkYPhfDwAChwGA60e6kgAAAABJRU5ErkJggg==''"
  by (simp add: sample_png_def base64_char_def base64_alphabet_def)

lemma decoded_sample_url:
  "decoded_payload ''data:image/png;base64,iVBORw0KGgoAAAANSUhEUgAAAAEAAAABCAYAAAAfFcSJAAAADUlEQVR42mNkYPhfDwAChwGA60e6kgAAAABJRU5ErkJggg=='' = Some sample_png"
proof -
  have "decoded_payload (toDataURL sample_codec sample_img 1 1 ''image/png'' None) = Some sample_png"
    by (simp add: decoded_payload_toDataURL sample_codec_def)
  then show ?thesis by (simp add: toDataURL_def sample_codec_def base64_sample_png)
qed

lemma resize_sample:
  "snd (resizeImage sample_codec sample_img (1 / 2) ''image/png'') =
     Some \<lparr>dataUrl = ''data:image/png;base64,iVBORw0KGgoAAAANSUhEUgAAAAEAAAABCAYAAAAfFcSJAAAADUlEQVR42mNkYPhfDwAChwGA60e6kgAAAABJRU5ErkJggg=='',
           width = 500, height = 400, fileSize = 72\<rparr>"
  by (simp add: resizeImage_eq Let_def sample_img_def sample_codec_def fmul_1000_800 Math_round_def
      toDataURL_def base64_sample_png estimate_of_96 [unfolded Math_round_def])


section \<open>The conversion loop\<close>

text \<open>
  Over a selection made of option values the loop pushes one variant for each element,
  in the order of the list.
\<close>

lemma find_distinct_key:
  "distinct (map f xs) \<Longrightarrow> x \<in> set xs \<Longrightarrow> find (\<lambda>y. f y = f x) xs = Some x"
  by (induction xs) (auto simp: image_iff)

lemma find_file_size_option:
  assumes "opt \<in> set FILE_SIZE_OPTIONS"
  shows "find (\<lambda>x. f_value x = f_value opt) FILE_SIZE_OPTIONS = Some opt"
proof -
  have "distinct (map f_value FILE_SIZE_OPTIONS)" by (simp add: file_size_values)
  then show ?thesis using assms by (rule find_distinct_key)
qed

lemma convert_loop_options:
  assumes "set opts \<subseteq> set FILE_SIZE_OPTIONS"
  shows "convert_loop enc img ty w wopt (map f_value opts) results trace =
    (trace @ concat (map (\<lambda>opt. fst (resizeImage enc img (fmul w (f_value opt)) ty)) opts),
     Some (results @
       map (\<lambda>opt. variant wopt opt (the (snd (resizeImage enc img (fmul w (f_value opt)) ty)))) opts))"
  using assms
proof (induction opts arbitrary: results trace)
  case Nil
  then show ?case by simp
next
  case (Cons opt opts)
  have f: "find (\<lambda>x. f_value x = f_value opt) FILE_SIZE_OPTIONS = Some opt"
    using Cons.prems by (intro find_file_size_option) simp
  obtain canvas result where r:
    "resizeImage enc img (fmul w (f_value opt)) ty = (canvas, Some result)"
    by (simp add: resizeImage_eq Let_def)
  show ?case using Cons.prems by (simp add: f r Cons.IH)
qed

lemma selection_options_exist:
  assumes "set fs \<subseteq> set (map f_value FILE_SIZE_OPTIONS)"
  shows "\<exists>opts. fs = map f_value opts \<and> set opts \<subseteq> set FILE_SIZE_OPTIONS"
  using assms
proof (induction fs)
  case Nil
  then show ?case by simp
next
  case (Cons f fs)
  then obtain opts where o: "fs = map f_value opts" "set opts \<subseteq> set FILE_SIZE_OPTIONS" by auto
  from Cons.prems obtain opt where "opt \<in> set FILE_SIZE_OPTIONS" "f = f_value opt" by auto
  with o have "f # fs = map f_value (opt # opts) \<and> set (opt # opts) \<subseteq> set FILE_SIZE_OPTIONS" by simp
  then show ?case by (intro exI [of _ "opt # opts"])
qed

lemma sorted_selection_options:
  assumes "set fs \<subseteq> set (map f_value FILE_SIZE_OPTIONS)" and "distinct fs"
  shows "sort_by descending fs =
    map f_value (filter (\<lambda>opt. f_value opt \<in> set fs) FILE_SIZE_OPTIONS)"
proof (rule strict_descending_unique)
  show "sorted_wrt (>) (sort_by descending fs)" using assms by (rule sort_descending_strict)
  have "sorted_wrt (\<lambda>x y. f_value y < f_value x) FILE_SIZE_OPTIONS"
    using file_size_values_descending by (simp add: sorted_wrt_map)
  then show "sorted_wrt (>) (map f_value (filter (\<lambda>opt. f_value opt \<in> set fs) FILE_SIZE_OPTIONS))"
    by (simp add: sorted_wrt_map sorted_wrt_filter)
  show "set (sort_by descending fs) =
    set (map f_value (filter (\<lambda>opt. f_value opt \<in> set fs) FILE_SIZE_OPTIONS))"
    using assms(1) by auto
qed

lemma handleConvert_options:
  assumes "loadedImage s = Some img" and "originalInfo s = Some info"
    and "selectedFileSizeScales s \<noteq> []"
    and "sort_by descending (selectedFileSizeScales s) = map f_value opts"
    and "set opts \<subseteq> set FILE_SIZE_OPTIONS"
  shows "handleConvert enc s =
    s\<lparr>selectedFileSizeScales := map f_value opts,
      resizedImages :=
        map (\<lambda>opt. variant (find (\<lambda>x. w_value x = selectedWidthScale s) WIDTH_SCALE_OPTIONS) opt
              (the (snd (resizeImage enc img (fmul (selectedWidthScale s) (f_value opt)) (o_type info)))))
          opts,
      isProcessing := False,
      effects := effects s @
        concat (map (\<lambda>opt. fst (resizeImage enc img (fmul (selectedWidthScale s) (f_value opt)) (o_type info))) opts)\<rparr>"
  using assms(1-3) by (simp add: handleConvert_def Let_def assms(4) convert_loop_options [OF assms(5)])

lemma handleConvert_selection:
  "selectedWidthScale (handleConvert enc s) = selectedWidthScale s"
  "selectedFileSizeScales (handleConvert enc s) = selectedFileSizeScales s
    \<or> selectedFileSizeScales (handleConvert enc s) = sort_by descending (selectedFileSizeScales s)"
  by (simp_all add: handleConvert_def Let_def split: option.splits prod.splits)

lemma handleDownload_selection:
  "selectedWidthScale (handleDownload s url ident) = selectedWidthScale s"
  "selectedFileSizeScales (handleDownload s url ident) = selectedFileSizeScales s"
  by (simp_all add: handleDownload_def Let_def split: option.splits)

lemma handleDownloadAll_selection:
  "selectedWidthScale (handleDownloadAll s) = selectedWidthScale s"
  "selectedFileSizeScales (handleDownloadAll s) = selectedFileSizeScales s"
proof -
  have h: "selectedWidthScale (foldl (\<lambda>t img. handleDownload t (r_dataUrl img) (r_id img)) s vs)
      = selectedWidthScale s
    \<and> selectedFileSizeScales (foldl (\<lambda>t img. handleDownload t (r_dataUrl img) (r_id img)) s vs)
      = selectedFileSizeScales s" for vs
    by (induction vs arbitrary: s) (simp_all add: handleDownload_selection)
  show "selectedWidthScale (handleDownloadAll s) = selectedWidthScale s"
    using h [of "resizedImages s"] by (simp add: handleDownloadAll_def)
  show "selectedFileSizeScales (handleDownloadAll s) = selectedFileSizeScales s"
    using h [of "resizedImages s"] by (simp add: handleDownloadAll_def)
qed

lemma reachable_selection:
  assumes "reachable enc s"
  shows "selectedWidthScale s \<in> set (map w_value WIDTH_SCALE_OPTIONS)
    \<and> sorted_wrt (>) (selectedFileSizeScales s)
    \<and> set (selectedFileSizeScales s) \<subseteq> set (map f_value FILE_SIZE_OPTIONS)"
  using assms
proof (induction rule: reachable.induct)
  case start
  then show ?case
    by (simp add: initial_selection file_size_values_descending)
      (simp add: initial_def WIDTH_SCALE_OPTIONS_def)
next
  case (file_change s files)
  then show ?case by (simp add: handleFileChange_def split: option.splits)
next
  case (reader_loaded s url)
  then show ?case by (simp add: reader_onload_def)
next
  case (img_loaded s fl img)
  then show ?case by (simp add: img_onload_def)
next
  case (width_click s opt)
  then show ?case by (simp add: setSelectedWidthScale_def)
next
  case (file_size_toggle s fopt)
  then have i: "sorted_wrt (>) (selectedFileSizeScales s)"
      "set (selectedFileSizeScales s) \<subseteq> set (map f_value FILE_SIZE_OPTIONS)"
    and f: "f_value fopt \<in> set (map f_value FILE_SIZE_OPTIONS)"
    and w: "selectedWidthScale s \<in> set (map w_value WIDTH_SCALE_OPTIONS)"
    by simp_all
  have "selectedWidthScale (handleFileSizeToggle s (f_value fopt)) = selectedWidthScale s"
    by (simp add: handleFileSizeToggle_def)
  with w toggle_invariant [OF i f] show ?case by simp
next
  case (convert s)
  then have i: "sorted_wrt (>) (selectedFileSizeScales s)"
      "set (selectedFileSizeScales s) \<subseteq> set (map f_value FILE_SIZE_OPTIONS)"
    by simp_all
  have "sort_by descending (selectedFileSizeScales s) = selectedFileSizeScales s"
    using i(2,1) by (rule sort_descending_id)
  then have "selectedFileSizeScales (handleConvert enc s) = selectedFileSizeScales s"
    using handleConvert_selection(2) [of enc s] by auto
  with convert.IH show ?case by (simp add: handleConvert_selection(1))
next
  case (download s v)
  then show ?case by (simp add: handleDownload_selection)
next
  case (download_all s)
  then show ?case by (simp add: handleDownloadAll_selection)
qed

lemma replace_extension_stem:
  assumes "ext \<noteq> []" and "CHR ''.'' \<notin> set ext" and "CHR ''/'' \<notin> set ext"
  shows "replace_extension (stem @ ''.'' @ ext) = stem"
  using assms by (induction stem) (auto simp: list_all_iff)

lemma replace_extension_unchanged:
  assumes "\<not> (\<exists>p e. name = p @ ''.'' @ e \<and> e \<noteq> [] \<and> CHR ''.'' \<notin> set e \<and> CHR ''/'' \<notin> set e)"
  shows "replace_extension name = name"
  using assms
proof (induction name)
  case Nil
  then show ?case by simp
next
  case (Cons c cs)
  have "\<not> (c = CHR ''.'' \<and> cs \<noteq> [] \<and> CHR ''.'' \<notin> set cs \<and> CHR ''/'' \<notin> set cs)"
    using Cons.prems [simplified, rule_format, of "[]" cs] by auto
  moreover have "\<not> (\<exists>p e. cs = p @ ''.'' @ e \<and> e \<noteq> [] \<and> CHR ''.'' \<notin> set e \<and> CHR ''/'' \<notin> set e)"
  proof
    assume "\<exists>p e. cs = p @ ''.'' @ e \<and> e \<noteq> [] \<and> CHR ''.'' \<notin> set e \<and> CHR ''/'' \<notin> set e"
    then obtain p e where "cs = p @ ''.'' @ e" "e \<noteq> []" "CHR ''.'' \<notin> set e" "CHR ''/'' \<notin> set e"
      by blast
    then have "c # cs = (c # p) @ ''.'' @ e \<and> e \<noteq> [] \<and> CHR ''.'' \<notin> set e \<and> CHR ''/'' \<notin> set e"
      by simp
    with Cons.prems show False by blast
  qed
  ultimately show ?case using Cons.IH by (auto simp: list_all_iff)
qed

lemma sample_state_fields:
  "loadedImage sample_state = Some sample_img"
  "originalInfo sample_state =
     Some \<lparr>o_name = ''photo.png'', o_width = 1000, o_height = 800, o_fileSize = 4096,
           o_type = ''image/png''\<rparr>"
  "selectedFileSizeScales sample_state = map f_value FILE_SIZE_OPTIONS"
  "selectedWidthScale sample_state = 1"
  by (simp_all add: sample_state_def img_onload_def reader_onload_def handleFileChange_def
      startsWith_def sample_file_def sample_img_def initial_selection)
    (simp add: initial_def rnd_1)

lemma sample_state_dot_fields:
  "loadedImage sample_state_dot = Some sample_dot"
  "originalInfo sample_state_dot =
     Some \<lparr>o_name = ''photo.png'', o_width = 2, o_height = 2, o_fileSize = 4096,
           o_type = ''image/png''\<rparr>"
  "selectedFileSizeScales sample_state_dot = map f_value FILE_SIZE_OPTIONS"
  "selectedWidthScale sample_state_dot = 1"
  by (simp_all add: sample_state_dot_def img_onload_def reader_onload_def handleFileChange_def
      startsWith_def sample_file_def sample_dot_def initial_selection)
    (simp add: initial_def rnd_1)

lemma scales_loop_eq:
  "scales_loop enc img ty xs results trace =
    (trace @ concat (map (\<lambda>(ratio, scale, label). fst (resizeImage enc img scale ty)) xs),
     Some (results @
       map (\<lambda>(ratio, scale, label). variant_page ratio label (the (snd (resizeImage enc img scale ty)))) xs))"
proof (induction xs arbitrary: results trace)
  case Nil
  then show ?case by simp
next
  case (Cons x xs)
  obtain ratio scale label where x: "x = (ratio, scale, label)" by (cases x)
  obtain canvas result where r: "resizeImage enc img scale ty = (canvas, Some result)"
    by (simp add: resizeImage_eq Let_def)
  show ?case by (simp add: x r Cons.IH)
qed

lemma img_onload_page_eq:
  "img_onload_page enc t fl img =
     t\<lparr>p_originalInfo :=
         Some \<lparr>o_name = file_name fl, o_width = img_width img, o_height = img_height img,
               o_fileSize = file_size fl, o_type = file_type fl\<rparr>,
       p_resizedImages :=
         map (\<lambda>(ratio, scale, label).
               variant_page ratio label (the (snd (resizeImage enc img scale (file_type fl)))))
           scales,
       p_isProcessing := False,
       p_effects := p_effects t @
         concat (map (\<lambda>(ratio, scale, label). fst (resizeImage enc img scale (file_type fl))) scales)\<rparr>"
  by (simp add: img_onload_page_def scales_loop_eq Let_def)

lemma estimate_core:
  "\<exists>r payload. snd (resizeImage enc img scale originalType) = Some r
    \<and> decoded_payload (dataUrl r) = Some payload
    \<and> (length payload < 2 ^ 50 \<longrightarrow> fileSize r = of_nat (3 * ((length payload + 2) div 3)))"
proof -
  define W where "W = Math_round (fmul (of_nat (img_width img)) scale)"
  define H where "H = Math_round (fmul (of_nat (img_height img)) scale)"
  define M where "M = (if originalType = ''image/png'' then ''image/png'' else ''image/jpeg'')"
  define Q where "Q = (if originalType = ''image/png'' then None else Some (rnd (92 / 100)))"
  define P where "P = (if W = 0 \<or> H = 0 then [] else enc img W H M Q)"
  define r where "r = \<lparr>dataUrl = toDataURL enc img W H M Q, width = W, height = H,
      fileSize = Math_round (fdiv (fmul (of_nat (length (if W = 0 \<or> H = 0 then [] else base64_encode (enc img W H M Q)))) 3) 4)\<rparr>"
  have c: "CHR '','' \<notin> set M" by (simp add: M_def)
  have s: "snd (resizeImage enc img scale originalType) = Some r"
    unfolding resizeImage_eq Let_def W_def H_def M_def Q_def r_def snd_conv ..
  have d: "decoded_payload (dataUrl r) = Some P"
    unfolding r_def P_def using decoded_payload_toDataURL [OF c] by simp
  have l: "length (if W = 0 \<or> H = 0 then [] else base64_encode (enc img W H M Q))
      = 4 * ((length P + 2) div 3)"
    by (simp add: P_def length_base64_encode)
  have "fileSize r = of_nat (3 * ((length P + 2) div 3))" if "length P < 2 ^ 50"
    unfolding r_def using estimate_of_payload [OF that] by (simp only: l Resized.simps)
  with s d show ?thesis by blast
qed

lemma estimate_of_result:
  "\<exists>payload. decoded_payload (dataUrl (the (snd (resizeImage enc img scale originalType)))) = Some payload
    \<and> (length payload < 2 ^ 50 \<longrightarrow>
        fileSize (the (snd (resizeImage enc img scale originalType)))
          = of_nat (3 * ((length payload + 2) div 3)))"
  using estimate_core [of enc img scale originalType] by auto

lemma codec_core:
  "fst (resizeImage enc img scale originalType) =
     [DrawImage img (Math_round (fmul (of_nat (img_width img)) scale))
        (Math_round (fmul (of_nat (img_height img)) scale)),
      ToDataURL (if originalType = ''image/png'' then ''image/png'' else ''image/jpeg'')
        (if originalType = ''image/png'' then None else Some (rnd (92 / 100)))]"
  "map_option dataUrl (snd (resizeImage enc img scale originalType)) =
     Some (toDataURL enc img (Math_round (fmul (of_nat (img_width img)) scale))
        (Math_round (fmul (of_nat (img_height img)) scale))
        (if originalType = ''image/png'' then ''image/png'' else ''image/jpeg'')
        (if originalType = ''image/png'' then None else Some (rnd (92 / 100))))"
  by (simp_all add: resizeImage_eq Let_def)


section \<open>Rounding in the products\<close>

text \<open>
  The products are rounded before \<^verbatim>\<open>Math.round\<close> sees them. For a width of 90, the
  width scale 0.7 and the file-size scale 1/2 the exact product of the decimal values is
  31.5, which rounds to 32; the binary64 product is just below, and the source gives 31.
  Two pixels at the smallest combined scale round to none.
\<close>

lemma rounding_of_products:
  "Math_round (fmul 90 (fmul (rnd (7 / 10)) (fdiv 1 2))) = 31"
  "\<lfloor>(90 * (7 / 10 * (1 / 2)) + 1 / 2 :: rat)\<rfloor> = 32"
  by (simp_all add: rnd_7_10 fdiv_1_2 combined_values Math_round_def)
    (simp add: fmul_def rnd_normal [where e = 4] rne_def Let_def)

lemma two_pixels_vanish:
  "Math_round (fmul 2 (fmul (rnd (5 / 10)) (fdiv 1 (Math_sqrt 8)))) = 0"
  by (simp add: rnd_half fdiv_1_sqrt_8 combined_values Math_round_def)
    (simp add: fmul_def rnd_normal [where e = "- 2"] rne_def Let_def)


text \<open>
  The dimensions of the variants that \<^verbatim>\<open>handleConvert\<close> stores, in the order of the sorted
  selection, and the products of three pixels with the smallest combined scales.
\<close>

lemma handleConvert_dimensions:
  assumes "loadedImage s = Some img" and "originalInfo s = Some info"
    and "selectedFileSizeScales s \<noteq> []"
    and "set (selectedFileSizeScales s) \<subseteq> set (map f_value FILE_SIZE_OPTIONS)"
  shows "map (\<lambda>v. (r_width v, r_height v)) (resizedImages (handleConvert enc s)) =
    map (\<lambda>g. (Math_round (fmul (of_nat (img_width img)) (fmul (selectedWidthScale s) g)),
              Math_round (fmul (of_nat (img_height img)) (fmul (selectedWidthScale s) g))))
      (sort_by descending (selectedFileSizeScales s))"
proof -
  have "set (sort_by descending (selectedFileSizeScales s)) \<subseteq> set (map f_value FILE_SIZE_OPTIONS)"
    using assms(4) by simp
  then obtain opts where o: "sort_by descending (selectedFileSizeScales s) = map f_value opts"
      "set opts \<subseteq> set FILE_SIZE_OPTIONS"
    using selection_options_exist by blast
  show ?thesis
    by (simp add: handleConvert_options [OF assms(1-3) o] o(1) variant_def resizeImage_eq
        Let_def comp_def)
qed

lemma fmul_3:
  "fmul 3 (1592262918131443 / 4503599627370496) = 4776788754394329 / 4503599627370496"
  "fmul 3 (1 / 4) = 3 / 4"
  "fmul 3 (1592262918131443 / 9007199254740992) = 4776788754394329 / 9007199254740992"
  by (simp_all add: fmul_def rnd_normal [where e = 0] rnd_normal [where e = "- 1"] rne_def Let_def)

section \<open>The claims\<close>

text \<open>
  \<^bold>\<open>C1.\<close> For a source image of native width \<open>W\<close> and height \<open>H\<close>, a width scale \<open>w\<close> and
  a selection of file-size scales \<open>f\<close> taken from the options, the variants of a
  conversion have, in the order of the sorted selection, the width
  \<open>Math.round(W * (w * f))\<close> and the height \<open>Math.round(H * (w * f))\<close>: the combined scale
  is the product \<open>w * f\<close>, and each axis is rounded to the nearest integer on its own. The
  products are those of the source, binary64 products.
\<close>

theorem variant_dimensions:
  assumes "loadedImage s = Some img" and "originalInfo s = Some info"
    and "selectedFileSizeScales s \<noteq> []"
    and "set (selectedFileSizeScales s) \<subseteq> set (map f_value FILE_SIZE_OPTIONS)"
  shows "map (\<lambda>v. (r_width v, r_height v)) (resizedImages (handleConvert enc s)) =
    map (\<lambda>f. (Math_round (fmul (of_nat (img_width img)) (fmul (selectedWidthScale s) f)),
              Math_round (fmul (of_nat (img_height img)) (fmul (selectedWidthScale s) f))))
      (sort_by descending (selectedFileSizeScales s))"
proof -
  have "set (sort_by descending (selectedFileSizeScales s)) \<subseteq> set (map f_value FILE_SIZE_OPTIONS)"
    using assms(4) by simp
  then obtain opts where o: "sort_by descending (selectedFileSizeScales s) = map f_value opts"
      "set opts \<subseteq> set FILE_SIZE_OPTIONS"
    using selection_options_exist by blast
  show ?thesis
    by (simp add: handleConvert_options [OF assms(1-3) o] o(1) variant_def resizeImage_eq
        Let_def comp_def)
qed

theorem variant_dimensions_witness:
  "loadedImage (sample_state\<lparr>loadedImage := Some sample_small, selectedWidthScale := rnd (7 / 10),
       selectedFileSizeScales := [fdiv 1 2]\<rparr>) = Some sample_small
   \<and> originalInfo (sample_state\<lparr>loadedImage := Some sample_small, selectedWidthScale := rnd (7 / 10),
       selectedFileSizeScales := [fdiv 1 2]\<rparr>) =
       Some \<lparr>o_name = ''photo.png'', o_width = 1000, o_height = 800, o_fileSize = 4096,
             o_type = ''image/png''\<rparr>
   \<and> selectedFileSizeScales (sample_state\<lparr>loadedImage := Some sample_small,
       selectedWidthScale := rnd (7 / 10), selectedFileSizeScales := [fdiv 1 2]\<rparr>) \<noteq> []
   \<and> set (selectedFileSizeScales (sample_state\<lparr>loadedImage := Some sample_small,
       selectedWidthScale := rnd (7 / 10), selectedFileSizeScales := [fdiv 1 2]\<rparr>))
       \<subseteq> set (map f_value FILE_SIZE_OPTIONS)
   \<and> map (\<lambda>v. (r_width v, r_height v))
       (resizedImages (handleConvert sample_codec
          (sample_state\<lparr>loadedImage := Some sample_small, selectedWidthScale := rnd (7 / 10),
             selectedFileSizeScales := [fdiv 1 2]\<rparr>))) = [(31, 21)]"
proof -
  let ?s = "sample_state\<lparr>loadedImage := Some sample_small, selectedWidthScale := rnd (7 / 10),
       selectedFileSizeScales := [fdiv 1 2]\<rparr>"
  have 1: "loadedImage ?s = Some sample_small" by simp
  have 2: "originalInfo ?s = Some \<lparr>o_name = ''photo.png'', o_width = 1000, o_height = 800,
      o_fileSize = 4096, o_type = ''image/png''\<rparr>"
    by (simp add: sample_state_fields)
  have 3: "selectedFileSizeScales ?s \<noteq> []" by simp
  have 4: "set (selectedFileSizeScales ?s) \<subseteq> set (map f_value FILE_SIZE_OPTIONS)"
    by (simp add: file_size_values fdiv_1_2)
  have m: "fmul 90 (3152519739159347 / 9007199254740992) = 8866461766385663 / 281474976710656"
    "fmul 60 (3152519739159347 / 9007199254740992) = 21"
    by (simp_all add: fmul_def rnd_normal [where e = 4] rne_def Let_def)
  have "map (\<lambda>v. (r_width v, r_height v)) (resizedImages (handleConvert sample_codec ?s)) = [(31, 21)]"
    unfolding variant_dimensions [OF 1 2 3 4]
    by (simp add: sort_by_Cons sample_small_def rnd_7_10 fdiv_1_2 combined_values m Math_round_def)
  with 1 2 3 4 show ?thesis by blast
qed

text \<open>
  \<^bold>\<open>C2\<close>, as the specification states it, fails: the estimate
  \<^verbatim>\<open>Math.round(length * 3 / 4)\<close> counts the padding characters of the base64 text. A
  source of two by two pixels gives three variants of one pixel; when the codec encodes
  each as the sample PNG of 70 bytes, the base64 text has 96 characters, two of them
  padding, and the estimate of each variant is 72 bytes.
\<close>

theorem estimate_counts_padding:
  "resizedImages (handleConvert sample_codec sample_state_dot) =
     [\<lparr>r_id = ''100%-1-2'', r_label = variant_label ''100%'' ''1/2'',
       r_dataUrl = ''data:image/png;base64,iVBORw0KGgoAAAANSUhEUgAAAAEAAAABCAYAAAAfFcSJAAAADUlEQVR42mNkYPhfDwAChwGA60e6kgAAAABJRU5ErkJggg=='',
       r_width = 1, r_height = 1, r_fileSize = 72\<rparr>,
      \<lparr>r_id = ''100%-1-4'', r_label = variant_label ''100%'' ''1/4'',
       r_dataUrl = ''data:image/png;base64,iVBORw0KGgoAAAANSUhEUgAAAAEAAAABCAYAAAAfFcSJAAAADUlEQVR42mNkYPhfDwAChwGA60e6kgAAAABJRU5ErkJggg=='',
       r_width = 1, r_height = 1, r_fileSize = 72\<rparr>,
      \<lparr>r_id = ''100%-1-8'', r_label = variant_label ''100%'' ''1/8'',
       r_dataUrl = ''data:image/png;base64,iVBORw0KGgoAAAANSUhEUgAAAAEAAAABCAYAAAAfFcSJAAAADUlEQVR42mNkYPhfDwAChwGA60e6kgAAAABJRU5ErkJggg=='',
       r_width = 1, r_height = 1, r_fileSize = 72\<rparr>]
   \<and> decoded_payload ''data:image/png;base64,iVBORw0KGgoAAAANSUhEUgAAAAEAAAABCAYAAAAfFcSJAAAADUlEQVR42mNkYPhfDwAChwGA60e6kgAAAABJRU5ErkJggg=='' = Some sample_png
   \<and> length sample_png = 70"
proof -
  have 3: "selectedFileSizeScales sample_state_dot \<noteq> []"
    by (simp add: sample_state_dot_fields FILE_SIZE_OPTIONS_def)
  have 4: "sort_by descending (selectedFileSizeScales sample_state_dot) = map f_value FILE_SIZE_OPTIONS"
    unfolding sample_state_dot_fields
    by (rule sort_descending_id) (simp_all add: file_size_values_descending)
  note h = handleConvert_options [OF sample_state_dot_fields(1,2) 3 4 subset_refl, of sample_codec]
  have "resizedImages (handleConvert sample_codec sample_state_dot) =
     [\<lparr>r_id = ''100%-1-2'', r_label = variant_label ''100%'' ''1/2'',
       r_dataUrl = ''data:image/png;base64,iVBORw0KGgoAAAANSUhEUgAAAAEAAAABCAYAAAAfFcSJAAAADUlEQVR42mNkYPhfDwAChwGA60e6kgAAAABJRU5ErkJggg=='',
       r_width = 1, r_height = 1, r_fileSize = 72\<rparr>,
      \<lparr>r_id = ''100%-1-4'', r_label = variant_label ''100%'' ''1/4'',
       r_dataUrl = ''data:image/png;base64,iVBORw0KGgoAAAANSUhEUgAAAAEAAAABCAYAAAAfFcSJAAAADUlEQVR42mNkYPhfDwAChwGA60e6kgAAAABJRU5ErkJggg=='',
       r_width = 1, r_height = 1, r_fileSize = 72\<rparr>,
      \<lparr>r_id = ''100%-1-8'', r_label = variant_label ''100%'' ''1/8'',
       r_dataUrl = ''data:image/png;base64,iVBORw0KGgoAAAANSUhEUgAAAAEAAAABCAYAAAAfFcSJAAAADUlEQVR42mNkYPhfDwAChwGA60e6kgAAAABJRU5ErkJggg=='',
       r_width = 1, r_height = 1, r_fileSize = 72\<rparr>]"
    unfolding h
    by (simp add: sample_state_dot_fields find_full_width variant_def optional_label_def
        resizeImage_eq Let_def FILE_SIZE_OPTIONS_def fdiv_1_sqrt_2 fdiv_1_2 fdiv_1_sqrt_8
        combined_values sample_dot_def fmul_2 Math_round_def toDataURL_def sample_codec_def
        base64_sample_png estimate_of_96 [unfolded Math_round_def])
  moreover have "length sample_png = 70" by (simp add: sample_png_def)
  ultimately show ?thesis using decoded_sample_url by simp
qed

text \<open>
  \<^bold>\<open>C2\<close>, amended. The estimated byte size of a variant is a function of the re-encoded
  payload alone: the byte count of the payload decoded from the base64 text of the data
  URL, rounded up to a multiple of three. It is the exact count when the count is a
  multiple of three, and one or two bytes more otherwise. This holds for what
  \<^verbatim>\<open>resizeImage\<close> resolves to, which it always does, and so for every variant of both
  components.
\<close>

theorem estimated_file_size:
  "(\<exists>r payload. snd (resizeImage enc img scale originalType) = Some r
      \<and> decoded_payload (dataUrl r) = Some payload
      \<and> (length payload < 2 ^ 50 \<longrightarrow> fileSize r = of_nat (3 * ((length payload + 2) div 3))))
   \<and> (loadedImage s = Some img \<and> originalInfo s = Some info \<and> selectedFileSizeScales s \<noteq> []
        \<and> set (selectedFileSizeScales s) \<subseteq> set (map f_value FILE_SIZE_OPTIONS) \<longrightarrow>
      (\<forall>v \<in> set (resizedImages (handleConvert enc s)).
         \<exists>payload. decoded_payload (r_dataUrl v) = Some payload
           \<and> (length payload < 2 ^ 50 \<longrightarrow>
               r_fileSize v = of_nat (3 * ((length payload + 2) div 3)))))
   \<and> (\<forall>v \<in> set (p_resizedImages (img_onload_page enc t fl img)).
         \<exists>payload. decoded_payload (p_dataUrl v) = Some payload
           \<and> (length payload < 2 ^ 50 \<longrightarrow>
               p_fileSize v = of_nat (3 * ((length payload + 2) div 3))))"
proof (intro conjI impI)
  show "\<exists>r payload. snd (resizeImage enc img scale originalType) = Some r
      \<and> decoded_payload (dataUrl r) = Some payload
      \<and> (length payload < 2 ^ 50 \<longrightarrow> fileSize r = of_nat (3 * ((length payload + 2) div 3)))"
    by (rule estimate_core)
next
  assume a: "loadedImage s = Some img \<and> originalInfo s = Some info \<and> selectedFileSizeScales s \<noteq> []
    \<and> set (selectedFileSizeScales s) \<subseteq> set (map f_value FILE_SIZE_OPTIONS)"
  then have "set (sort_by descending (selectedFileSizeScales s)) \<subseteq> set (map f_value FILE_SIZE_OPTIONS)"
    by simp
  then obtain opts where o: "sort_by descending (selectedFileSizeScales s) = map f_value opts"
      "set opts \<subseteq> set FILE_SIZE_OPTIONS"
    using selection_options_exist by blast
  from a have 1: "loadedImage s = Some img" "originalInfo s = Some info"
      "selectedFileSizeScales s \<noteq> []"
    by simp_all
  show "\<forall>v \<in> set (resizedImages (handleConvert enc s)).
      \<exists>payload. decoded_payload (r_dataUrl v) = Some payload
        \<and> (length payload < 2 ^ 50 \<longrightarrow> r_fileSize v = of_nat (3 * ((length payload + 2) div 3)))"
    unfolding handleConvert_options [OF 1 o]
    using estimate_of_result by (auto simp: variant_def)
next
  show "\<forall>v \<in> set (p_resizedImages (img_onload_page enc t fl img)).
      \<exists>payload. decoded_payload (p_dataUrl v) = Some payload
        \<and> (length payload < 2 ^ 50 \<longrightarrow> p_fileSize v = of_nat (3 * ((length payload + 2) div 3)))"
    unfolding img_onload_page_eq
    using estimate_of_result by (auto simp: variant_page_def)
qed

theorem estimated_file_size_witness:
  "snd (resizeImage sample_codec sample_img (1 / 2) ''image/png'') =
     Some \<lparr>dataUrl = ''data:image/png;base64,iVBORw0KGgoAAAANSUhEUgAAAAEAAAABCAYAAAAfFcSJAAAADUlEQVR42mNkYPhfDwAChwGA60e6kgAAAABJRU5ErkJggg=='',
           width = 500, height = 400, fileSize = 72\<rparr>
   \<and> (\<exists>payload. decoded_payload ''data:image/png;base64,iVBORw0KGgoAAAANSUhEUgAAAAEAAAABCAYAAAAfFcSJAAAADUlEQVR42mNkYPhfDwAChwGA60e6kgAAAABJRU5ErkJggg=='' = Some payload
        \<and> length payload < 2 ^ 50 \<and> (72 :: rat) = of_nat (3 * ((length payload + 2) div 3)))"
proof -
  from estimated_file_size [THEN conjunct1, of sample_codec sample_img "1 / 2" "''image/png''"]
  obtain payload where p:
    "decoded_payload ''data:image/png;base64,iVBORw0KGgoAAAANSUhEUgAAAAEAAAABCAYAAAAfFcSJAAAADUlEQVR42mNkYPhfDwAChwGA60e6kgAAAABJRU5ErkJggg=='' = Some payload"
    "length payload < 2 ^ 50 \<longrightarrow> (72 :: rat) = of_nat (3 * ((length payload + 2) div 3))"
    unfolding resize_sample by auto
  from p(1) have "payload = sample_png" by (simp add: decoded_sample_url)
  then have "length payload < 2 ^ 50" by (simp add: sample_png_def)
  with p resize_sample show ?thesis by blast
qed

text \<open>
  \<^bold>\<open>C3.\<close> For a source of 1000 by 800 pixels, the width scale 1.0 and the three file-size
  scales, the variants measure 707 by 566, 500 by 400 and 354 by 283 pixels.
\<close>

theorem sizes_of_1000_by_800:
  "map (\<lambda>v. (r_id v, r_width v, r_height v))
     (resizedImages (handleConvert enc
        (img_onload initial file \<lparr>img_width = 1000, img_height = 800, img_src = src\<rparr>))) =
   [(''100%-1-2'', 707, 566), (''100%-1-4'', 500, 400), (''100%-1-8'', 354, 283)]"
proof -
  let ?img = "\<lparr>img_width = 1000, img_height = 800, img_src = src\<rparr>"
  let ?s = "img_onload initial file ?img"
  have sel: "selectedFileSizeScales ?s = map f_value FILE_SIZE_OPTIONS"
    by (simp add: img_onload_def initial_selection)
  have 1: "loadedImage ?s = Some ?img" by (simp add: img_onload_def)
  have 2: "originalInfo ?s = Some \<lparr>o_name = file_name file, o_width = 1000, o_height = 800,
      o_fileSize = file_size file, o_type = file_type file\<rparr>"
    by (simp add: img_onload_def)
  have 3: "selectedFileSizeScales ?s \<noteq> []" by (simp add: sel FILE_SIZE_OPTIONS_def)
  have 4: "sort_by descending (selectedFileSizeScales ?s) = map f_value FILE_SIZE_OPTIONS"
    unfolding sel by (rule sort_descending_id) (simp_all add: file_size_values_descending)
  have w: "selectedWidthScale ?s = rnd 1" by (simp add: img_onload_def initial_def)
  note h = handleConvert_options [OF 1 2 3 4 subset_refl, of enc]
  show ?thesis
    unfolding h
    by (simp add: w find_full_width variant_def optional_label_def resizeImage_eq Let_def
        FILE_SIZE_OPTIONS_def fdiv_1_sqrt_2 fdiv_1_2 fdiv_1_sqrt_8 rnd_1 combined_values
        fmul_1000_800 Math_round_def)
qed

text \<open>
  \<^bold>\<open>C4.\<close> When the declared type of the original is \<^verbatim>\<open>image/png\<close>, a variant is
  encoded as \<^verbatim>\<open>image/png\<close> with no quality argument; for every other declared type it
  is encoded as \<^verbatim>\<open>image/jpeg\<close> with the quality 0.92. The conversions of both
  components encode every variant in this way, with the declared type of the original.
\<close>

theorem reencoding_codec:
  "(originalType = ''image/png'' \<longrightarrow>
      fst (resizeImage enc img scale originalType) =
        [DrawImage img (Math_round (fmul (of_nat (img_width img)) scale))
           (Math_round (fmul (of_nat (img_height img)) scale)),
         ToDataURL ''image/png'' None]
      \<and> map_option dataUrl (snd (resizeImage enc img scale originalType)) =
        Some (toDataURL enc img (Math_round (fmul (of_nat (img_width img)) scale))
           (Math_round (fmul (of_nat (img_height img)) scale)) ''image/png'' None))
   \<and> (originalType \<noteq> ''image/png'' \<longrightarrow>
      fst (resizeImage enc img scale originalType) =
        [DrawImage img (Math_round (fmul (of_nat (img_width img)) scale))
           (Math_round (fmul (of_nat (img_height img)) scale)),
         ToDataURL ''image/jpeg'' (Some (rnd (92 / 100)))]
      \<and> map_option dataUrl (snd (resizeImage enc img scale originalType)) =
        Some (toDataURL enc img (Math_round (fmul (of_nat (img_width img)) scale))
           (Math_round (fmul (of_nat (img_height img)) scale)) ''image/jpeg''
           (Some (rnd (92 / 100)))))
   \<and> (loadedImage s = Some img \<and> originalInfo s = Some info \<and> selectedFileSizeScales s \<noteq> []
        \<and> set (selectedFileSizeScales s) \<subseteq> set (map f_value FILE_SIZE_OPTIONS) \<longrightarrow>
      effects (handleConvert enc s) = effects s @
        concat (map (\<lambda>f. fst (resizeImage enc img (fmul (selectedWidthScale s) f) (o_type info)))
          (sort_by descending (selectedFileSizeScales s))))
   \<and> p_effects (img_onload_page enc t fl img) = p_effects t @
        concat (map (\<lambda>(ratio, f, label). fst (resizeImage enc img f (file_type fl))) scales)"
proof (intro conjI impI)
  assume a: "loadedImage s = Some img \<and> originalInfo s = Some info \<and> selectedFileSizeScales s \<noteq> []
    \<and> set (selectedFileSizeScales s) \<subseteq> set (map f_value FILE_SIZE_OPTIONS)"
  then have "set (sort_by descending (selectedFileSizeScales s)) \<subseteq> set (map f_value FILE_SIZE_OPTIONS)"
    by simp
  then obtain opts where o: "sort_by descending (selectedFileSizeScales s) = map f_value opts"
      "set opts \<subseteq> set FILE_SIZE_OPTIONS"
    using selection_options_exist by blast
  from a have 1: "loadedImage s = Some img" "originalInfo s = Some info"
      "selectedFileSizeScales s \<noteq> []"
    by simp_all
  show "effects (handleConvert enc s) = effects s @
      concat (map (\<lambda>f. fst (resizeImage enc img (fmul (selectedWidthScale s) f) (o_type info)))
        (sort_by descending (selectedFileSizeScales s)))"
    unfolding handleConvert_options [OF 1 o] o(1) by (simp add: comp_def)
next
  show "p_effects (img_onload_page enc t fl img) = p_effects t @
      concat (map (\<lambda>(ratio, f, label). fst (resizeImage enc img f (file_type fl))) scales)"
    unfolding img_onload_page_eq by simp
qed (simp_all add: codec_core)

theorem reencoding_codec_witness:
  "fst (resizeImage sample_codec sample_img (1 / 2) ''image/png'') =
     [DrawImage sample_img 500 400, ToDataURL ''image/png'' None]
   \<and> map_option dataUrl (snd (resizeImage sample_codec sample_img (1 / 2) ''image/png'')) =
     Some (toDataURL sample_codec sample_img 500 400 ''image/png'' None)
   \<and> fst (resizeImage sample_codec sample_img (1 / 2) ''image/webp'') =
     [DrawImage sample_img 500 400,
      ToDataURL ''image/jpeg'' (Some (8286623314361713 / 9007199254740992))]
   \<and> map_option dataUrl (snd (resizeImage sample_codec sample_img (1 / 2) ''image/webp'')) =
     Some (toDataURL sample_codec sample_img 500 400 ''image/jpeg''
       (Some (8286623314361713 / 9007199254740992)))"
  using reencoding_codec [of "''image/png''" sample_codec sample_img "1 / 2"]
    reencoding_codec [of "''image/webp''" sample_codec sample_img "1 / 2"]
  by (simp add: sample_img_def fmul_1000_800 Math_round_def rnd_92_100)

text \<open>
  \<^bold>\<open>C5.\<close> For a non-empty selection of distinct file-size scales taken from the options,
  a conversion produces exactly one variant for each selected scale; the variants are
  computed, and listed, in strictly descending order of the scale, which is the order of
  the option table; and the list does not depend on the order of the selection.
\<close>

theorem one_variant_per_factor:
  assumes "loadedImage s = Some img" and "originalInfo s = Some info"
    and "selectedFileSizeScales s \<noteq> []"
    and "set (selectedFileSizeScales s) \<subseteq> set (map f_value FILE_SIZE_OPTIONS)"
    and "distinct (selectedFileSizeScales s)"
  shows "map Some (resizedImages (handleConvert enc s)) =
      map (\<lambda>opt. map_option
             (variant (find (\<lambda>x. w_value x = selectedWidthScale s) WIDTH_SCALE_OPTIONS) opt)
             (snd (resizeImage enc img (fmul (selectedWidthScale s) (f_value opt)) (o_type info))))
        (filter (\<lambda>opt. f_value opt \<in> set (selectedFileSizeScales s)) FILE_SIZE_OPTIONS)
    \<and> effects (handleConvert enc s) = effects s @
      concat (map (\<lambda>opt. fst (resizeImage enc img (fmul (selectedWidthScale s) (f_value opt)) (o_type info)))
        (filter (\<lambda>opt. f_value opt \<in> set (selectedFileSizeScales s)) FILE_SIZE_OPTIONS))
    \<and> sorted_wrt (>)
      (map f_value (filter (\<lambda>opt. f_value opt \<in> set (selectedFileSizeScales s)) FILE_SIZE_OPTIONS))
    \<and> set (map f_value (filter (\<lambda>opt. f_value opt \<in> set (selectedFileSizeScales s)) FILE_SIZE_OPTIONS))
      = set (selectedFileSizeScales s)
    \<and> length (resizedImages (handleConvert enc s)) = length (selectedFileSizeScales s)
    \<and> (\<forall>fs. distinct fs \<and> set fs = set (selectedFileSizeScales s) \<longrightarrow>
          resizedImages (handleConvert enc (s\<lparr>selectedFileSizeScales := fs\<rparr>)) =
          resizedImages (handleConvert enc s))"
proof -
  let ?sel = "selectedFileSizeScales s"
  let ?opts = "filter (\<lambda>opt. f_value opt \<in> set ?sel) FILE_SIZE_OPTIONS"
  have so: "sort_by descending ?sel = map f_value ?opts"
    using assms(4,5) by (rule sorted_selection_options)
  have sub: "set ?opts \<subseteq> set FILE_SIZE_OPTIONS" by simp
  note h = handleConvert_options [OF assms(1-3) so sub, of enc]
  have a: "map Some (resizedImages (handleConvert enc s)) =
      map (\<lambda>opt. map_option
             (variant (find (\<lambda>x. w_value x = selectedWidthScale s) WIDTH_SCALE_OPTIONS) opt)
             (snd (resizeImage enc img (fmul (selectedWidthScale s) (f_value opt)) (o_type info))))
        ?opts"
    unfolding h by (simp add: resizeImage_eq Let_def comp_def)
  have b: "effects (handleConvert enc s) = effects s @
      concat (map (\<lambda>opt. fst (resizeImage enc img (fmul (selectedWidthScale s) (f_value opt)) (o_type info))) ?opts)"
    unfolding h by simp
  have c: "sorted_wrt (>) (map f_value ?opts)"
    using sort_descending_strict [OF assms(4,5)] by (simp only: so)
  have d: "set (map f_value ?opts) = set ?sel"
    using set_sort_by [of descending ?sel] by (simp only: so)
  have "length (map f_value ?opts) = length ?sel"
    using length_sort_by [of descending ?sel] by (simp only: so)
  then have e: "length (resizedImages (handleConvert enc s)) = length ?sel"
    unfolding h by simp
  have f: "resizedImages (handleConvert enc (s\<lparr>selectedFileSizeScales := fs\<rparr>)) =
      resizedImages (handleConvert enc s)"
    if fs: "distinct fs \<and> set fs = set ?sel" for fs
  proof -
    let ?t = "s\<lparr>selectedFileSizeScales := fs\<rparr>"
    have 1: "loadedImage ?t = Some img" "originalInfo ?t = Some info" using assms(1,2) by simp_all
    have 2: "selectedFileSizeScales ?t \<noteq> []" using fs assms(3) by auto
    have "sort_by descending fs = map f_value (filter (\<lambda>opt. f_value opt \<in> set fs) FILE_SIZE_OPTIONS)"
      by (rule sorted_selection_options) (use fs assms(4) in simp_all)
    then have 3: "sort_by descending (selectedFileSizeScales ?t) = map f_value ?opts"
      using fs by simp
    show ?thesis
      unfolding handleConvert_options [OF 1 2 3 sub] h by simp
  qed
  from a b c d e f show ?thesis by blast
qed

theorem one_variant_per_factor_witness:
  "loadedImage (sample_state\<lparr>selectedFileSizeScales := [fdiv 1 (Math_sqrt 8), fdiv 1 (Math_sqrt 2)]\<rparr>)
     = Some sample_img
   \<and> originalInfo (sample_state\<lparr>selectedFileSizeScales := [fdiv 1 (Math_sqrt 8), fdiv 1 (Math_sqrt 2)]\<rparr>)
     = Some \<lparr>o_name = ''photo.png'', o_width = 1000, o_height = 800, o_fileSize = 4096,
             o_type = ''image/png''\<rparr>
   \<and> selectedFileSizeScales
       (sample_state\<lparr>selectedFileSizeScales := [fdiv 1 (Math_sqrt 8), fdiv 1 (Math_sqrt 2)]\<rparr>) \<noteq> []
   \<and> set (selectedFileSizeScales
       (sample_state\<lparr>selectedFileSizeScales := [fdiv 1 (Math_sqrt 8), fdiv 1 (Math_sqrt 2)]\<rparr>))
       \<subseteq> set (map f_value FILE_SIZE_OPTIONS)
   \<and> distinct (selectedFileSizeScales
       (sample_state\<lparr>selectedFileSizeScales := [fdiv 1 (Math_sqrt 8), fdiv 1 (Math_sqrt 2)]\<rparr>))
   \<and> map (\<lambda>v. (r_id v, r_width v, r_height v))
       (resizedImages (handleConvert sample_codec
          (sample_state\<lparr>selectedFileSizeScales := [fdiv 1 (Math_sqrt 8), fdiv 1 (Math_sqrt 2)]\<rparr>)))
     = [(''100%-1-2'', 707, 566), (''100%-1-8'', 354, 283)]
   \<and> resizedImages (handleConvert sample_codec
          (sample_state\<lparr>selectedFileSizeScales := [fdiv 1 (Math_sqrt 2), fdiv 1 (Math_sqrt 8)]\<rparr>))
     = resizedImages (handleConvert sample_codec
          (sample_state\<lparr>selectedFileSizeScales := [fdiv 1 (Math_sqrt 8), fdiv 1 (Math_sqrt 2)]\<rparr>))"
proof -
  let ?s = "sample_state\<lparr>selectedFileSizeScales := [fdiv 1 (Math_sqrt 8), fdiv 1 (Math_sqrt 2)]\<rparr>"
  have 1: "loadedImage ?s = Some sample_img" by (simp add: sample_state_fields)
  have 2: "originalInfo ?s = Some \<lparr>o_name = ''photo.png'', o_width = 1000, o_height = 800,
      o_fileSize = 4096, o_type = ''image/png''\<rparr>"
    by (simp add: sample_state_fields)
  have 3: "selectedFileSizeScales ?s \<noteq> []" by simp
  have 4: "set (selectedFileSizeScales ?s) \<subseteq> set (map f_value FILE_SIZE_OPTIONS)"
    by (simp add: FILE_SIZE_OPTIONS_def)
  have 5: "distinct (selectedFileSizeScales ?s)" by (simp add: fdiv_1_sqrt_2 fdiv_1_sqrt_8)
  note t = one_variant_per_factor [OF 1 2 3 4 5, of sample_codec]
  note t1 = t [THEN conjunct1]
  note t6 = t [THEN conjunct2, THEN conjunct2, THEN conjunct2, THEN conjunct2, THEN conjunct2]
  have o: "filter (\<lambda>opt. f_value opt \<in> set (selectedFileSizeScales ?s)) FILE_SIZE_OPTIONS =
      [\<lparr>f_value = fdiv 1 (Math_sqrt 2), f_label = ''1/2'', f_ratio = ''1-2''\<rparr>,
       \<lparr>f_value = fdiv 1 (Math_sqrt 8), f_label = ''1/8'', f_ratio = ''1-8''\<rparr>]"
    by (simp add: FILE_SIZE_OPTIONS_def fdiv_1_sqrt_2 fdiv_1_sqrt_8 fdiv_1_2)
  have "map (map_option (\<lambda>v. (r_id v, r_width v, r_height v)))
      (map Some (resizedImages (handleConvert sample_codec ?s)))
      = [Some (''100%-1-2'', 707, 566), Some (''100%-1-8'', 354, 283)]"
    unfolding t1 o
    by (simp add: sample_state_fields find_full_width variant_def optional_label_def
        resizeImage_eq Let_def sample_img_def fdiv_1_sqrt_2 fdiv_1_sqrt_8 combined_values
        fmul_1000_800 Math_round_def)
  then have "map Some (map (\<lambda>v. (r_id v, r_width v, r_height v))
      (resizedImages (handleConvert sample_codec ?s)))
      = map Some [(''100%-1-2'', 707, 566), (''100%-1-8'', 354, 283)]"
    by (simp add: comp_def)
  then have a: "map (\<lambda>v. (r_id v, r_width v, r_height v)) (resizedImages (handleConvert sample_codec ?s))
      = [(''100%-1-2'', 707, 566), (''100%-1-8'', 354, 283)]"
    by (simp only: inj_map_eq_map [OF inj_Some])
  have "distinct [fdiv 1 (Math_sqrt 2), fdiv 1 (Math_sqrt 8)]
      \<and> set [fdiv 1 (Math_sqrt 2), fdiv 1 (Math_sqrt 8)] = set (selectedFileSizeScales ?s)"
    by (auto simp: fdiv_1_sqrt_2 fdiv_1_sqrt_8)
  with t6 have b: "resizedImages (handleConvert sample_codec
        (?s\<lparr>selectedFileSizeScales := [fdiv 1 (Math_sqrt 2), fdiv 1 (Math_sqrt 8)]\<rparr>))
      = resizedImages (handleConvert sample_codec ?s)"
    by blast
  from 1 2 3 4 5 a b show ?thesis by simp
qed

text \<open>
  \<^bold>\<open>C6.\<close> With an empty selection of file-size scales a conversion changes nothing: the
  variant list and every other part of the state stay as they are, and the list of
  effects too, so that nothing is drawn, nothing is encoded and nothing is thrown.
\<close>

theorem convert_without_selection:
  assumes "selectedFileSizeScales s = []"
  shows "handleConvert enc s = s"
  using assms by (simp add: handleConvert_def split: option.splits)

theorem convert_without_selection_witness:
  "selectedFileSizeScales
     (foldl handleFileSizeToggle (handleConvert sample_codec sample_state)
        (map f_value FILE_SIZE_OPTIONS)) = []
   \<and> handleConvert sample_codec
       (foldl handleFileSizeToggle (handleConvert sample_codec sample_state)
          (map f_value FILE_SIZE_OPTIONS))
     = foldl handleFileSizeToggle (handleConvert sample_codec sample_state)
          (map f_value FILE_SIZE_OPTIONS)"
proof -
  let ?s = "handleConvert sample_codec sample_state"
  have "sort_by descending (selectedFileSizeScales sample_state) = selectedFileSizeScales sample_state"
    by (rule sort_descending_id) (simp_all add: sample_state_fields file_size_values_descending)
  then have "selectedFileSizeScales ?s = map f_value FILE_SIZE_OPTIONS"
    using handleConvert_selection(2) [of sample_codec sample_state]
    by (auto simp: sample_state_fields)
  then have e: "selectedFileSizeScales (foldl handleFileSizeToggle ?s (map f_value FILE_SIZE_OPTIONS)) = []"
    by (simp add: file_size_values toggle_selection)
  from convert_without_selection [OF e] e show ?thesis by simp
qed

text \<open>
  \<^bold>\<open>C7.\<close> A file whose declared type does not start with \<^verbatim>\<open>image/\<close> is answered with
  the notice, and the state stays as it is: the source image, its information, the
  variants and the selections. This holds for the components of both source files.
\<close>

theorem reject_non_image:
  assumes "\<not> startsWith (file_type file) ''image/''"
  shows "handleFileChange s (Some file) = s\<lparr>effects := effects s @ [Alert select_image_notice]\<rparr>
    \<and> handleFileChange_page t (Some file) =
        t\<lparr>p_effects := p_effects t @ [Alert select_image_notice]\<rparr>"
  using assms by (simp add: handleFileChange_def handleFileChange_page_def)

theorem reject_non_image_witness:
  "\<not> startsWith (file_type sample_text) ''image/''
   \<and> handleFileChange sample_state (Some sample_text) =
       sample_state\<lparr>effects := effects sample_state @ [Alert select_image_notice]\<rparr>
   \<and> handleFileChange_page sample_state_page (Some sample_text) =
       sample_state_page\<lparr>p_effects := p_effects sample_state_page @ [Alert select_image_notice]\<rparr>"
proof -
  have h: "\<not> startsWith (file_type sample_text) ''image/''"
    by (simp add: startsWith_def sample_text_def)
  from reject_non_image [OF h, of sample_state sample_state_page] h show ?thesis by simp
qed

text \<open>
  \<^bold>\<open>C8.\<close> In every reachable state and for every selected file-size scale, the combined
  scale lies in the interval \<open>(0, 1]\<close>, and the dimension it gives is at least one pixel when
  the source measures at least three pixels in that dimension. With an image loaded,
  \<^verbatim>\<open>handleConvert\<close> stores one variant for each selected scale, the width and the height of
  each variant are the rounded products of the image's dimensions with the combined scale,
  and every stored variant measures at least one pixel in each dimension in which the image
  measures at least three.
\<close>

theorem combined_scale_bounds:
  assumes "reachable enc s" and "f \<in> set (selectedFileSizeScales s)"
  shows "0 < fmul (selectedWidthScale s) f \<and> fmul (selectedWidthScale s) f \<le> 1
    \<and> (3 \<le> img_width img \<longrightarrow>
         1 \<le> Math_round (fmul (of_nat (img_width img)) (fmul (selectedWidthScale s) f)))
    \<and> (3 \<le> img_height img \<longrightarrow>
         1 \<le> Math_round (fmul (of_nat (img_height img)) (fmul (selectedWidthScale s) f)))
    \<and> (loadedImage s = Some img \<and> originalInfo s = Some info \<longrightarrow>
         map (\<lambda>v. (r_width v, r_height v)) (resizedImages (handleConvert enc s)) =
           map (\<lambda>g. (Math_round (fmul (of_nat (img_width img)) (fmul (selectedWidthScale s) g)),
                     Math_round (fmul (of_nat (img_height img)) (fmul (selectedWidthScale s) g))))
             (selectedFileSizeScales s)
         \<and> length (resizedImages (handleConvert enc s)) = length (selectedFileSizeScales s)
         \<and> (3 \<le> img_width img \<longrightarrow>
              (\<forall>v \<in> set (resizedImages (handleConvert enc s)). 1 \<le> r_width v))
         \<and> (3 \<le> img_height img \<longrightarrow>
              (\<forall>v \<in> set (resizedImages (handleConvert enc s)). 1 \<le> r_height v)))"
proof -
  note i = reachable_selection [OF assms(1)]
  have w: "selectedWidthScale s \<in> set (map w_value WIDTH_SCALE_OPTIONS)"
    and st: "sorted_wrt (>) (selectedFileSizeScales s)"
    and sub: "set (selectedFileSizeScales s) \<subseteq> set (map f_value FILE_SIZE_OPTIONS)"
    using i by simp_all
  have range: "1 / 6 \<le> fmul (selectedWidthScale s) g \<and> fmul (selectedWidthScale s) g \<le> 1"
    if "g \<in> set (selectedFileSizeScales s)" for g
  proof -
    have "g \<in> set (map f_value FILE_SIZE_OPTIONS)" using sub that by blast
    with w show ?thesis by (rule combined_scale_range)
  qed
  have r: "1 / 6 \<le> fmul (selectedWidthScale s) f \<and> fmul (selectedWidthScale s) f \<le> 1"
    using assms(2) by (rule range)
  then have p: "0 < fmul (selectedWidthScale s) f" by linarith
  have a: "0 < fmul (selectedWidthScale s) f \<and> fmul (selectedWidthScale s) f \<le> 1
    \<and> (3 \<le> img_width img \<longrightarrow>
         1 \<le> Math_round (fmul (of_nat (img_width img)) (fmul (selectedWidthScale s) f)))
    \<and> (3 \<le> img_height img \<longrightarrow>
         1 \<le> Math_round (fmul (of_nat (img_height img)) (fmul (selectedWidthScale s) f)))"
    using p r by (simp add: at_least_one_pixel)
  have b: "map (\<lambda>v. (r_width v, r_height v)) (resizedImages (handleConvert enc s)) =
           map (\<lambda>g. (Math_round (fmul (of_nat (img_width img)) (fmul (selectedWidthScale s) g)),
                     Math_round (fmul (of_nat (img_height img)) (fmul (selectedWidthScale s) g))))
             (selectedFileSizeScales s)
         \<and> length (resizedImages (handleConvert enc s)) = length (selectedFileSizeScales s)
         \<and> (3 \<le> img_width img \<longrightarrow>
              (\<forall>v \<in> set (resizedImages (handleConvert enc s)). 1 \<le> r_width v))
         \<and> (3 \<le> img_height img \<longrightarrow>
              (\<forall>v \<in> set (resizedImages (handleConvert enc s)). 1 \<le> r_height v))"
    if l: "loadedImage s = Some img \<and> originalInfo s = Some info"
  proof -
    have ne: "selectedFileSizeScales s \<noteq> []" using assms(2) by auto
    have id: "sort_by descending (selectedFileSizeScales s) = selectedFileSizeScales s"
      using sub st by (rule sort_descending_id)
    have d: "map (\<lambda>v. (r_width v, r_height v)) (resizedImages (handleConvert enc s)) =
        map (\<lambda>g. (Math_round (fmul (of_nat (img_width img)) (fmul (selectedWidthScale s) g)),
                  Math_round (fmul (of_nat (img_height img)) (fmul (selectedWidthScale s) g))))
          (selectedFileSizeScales s)"
      using handleConvert_dimensions [OF conjunct1 [OF l] conjunct2 [OF l] ne sub, of enc]
      unfolding id .
    have len: "length (resizedImages (handleConvert enc s)) = length (selectedFileSizeScales s)"
      using arg_cong [OF d, of length] by simp
    have dims: "\<exists>g \<in> set (selectedFileSizeScales s).
        r_width v = Math_round (fmul (of_nat (img_width img)) (fmul (selectedWidthScale s) g))
        \<and> r_height v = Math_round (fmul (of_nat (img_height img)) (fmul (selectedWidthScale s) g))"
      if "v \<in> set (resizedImages (handleConvert enc s))" for v
    proof -
      have "(r_width v, r_height v)
          \<in> set (map (\<lambda>v. (r_width v, r_height v)) (resizedImages (handleConvert enc s)))"
        using that by simp
      then show ?thesis unfolding d by auto
    qed
    have wd: "1 \<le> r_width v"
      if "3 \<le> img_width img" and "v \<in> set (resizedImages (handleConvert enc s))" for v
    proof -
      from dims [OF that(2)] obtain g where g: "g \<in> set (selectedFileSizeScales s)"
        "r_width v = Math_round (fmul (of_nat (img_width img)) (fmul (selectedWidthScale s) g))"
        "r_height v = Math_round (fmul (of_nat (img_height img)) (fmul (selectedWidthScale s) g))"
        by blast
      from range [OF g(1)] have "1 / 6 \<le> fmul (selectedWidthScale s) g" by (rule conjunct1)
      from at_least_one_pixel [OF this that(1)] show ?thesis unfolding g(2) .
    qed
    have hd: "1 \<le> r_height v"
      if "3 \<le> img_height img" and "v \<in> set (resizedImages (handleConvert enc s))" for v
    proof -
      from dims [OF that(2)] obtain g where g: "g \<in> set (selectedFileSizeScales s)"
        "r_width v = Math_round (fmul (of_nat (img_width img)) (fmul (selectedWidthScale s) g))"
        "r_height v = Math_round (fmul (of_nat (img_height img)) (fmul (selectedWidthScale s) g))"
        by blast
      from range [OF g(1)] have "1 / 6 \<le> fmul (selectedWidthScale s) g" by (rule conjunct1)
      from at_least_one_pixel [OF this that(1)] show ?thesis unfolding g(3) .
    qed
    from d len wd hd show ?thesis by blast
  qed
  from a b show ?thesis by blast
qed

theorem combined_scale_bounds_witness:
  "reachable sample_codec
     (setSelectedWidthScale (img_onload initial sample_file sample_tiny)
        (w_value \<lparr>w_value = rnd (5 / 10), w_label = ''50%''\<rparr>))
   \<and> fdiv 1 (Math_sqrt 8) \<in> set (selectedFileSizeScales
       (setSelectedWidthScale (img_onload initial sample_file sample_tiny)
          (w_value \<lparr>w_value = rnd (5 / 10), w_label = ''50%''\<rparr>)))
   \<and> fmul (selectedWidthScale
       (setSelectedWidthScale (img_onload initial sample_file sample_tiny)
          (w_value \<lparr>w_value = rnd (5 / 10), w_label = ''50%''\<rparr>)))
       (fdiv 1 (Math_sqrt 8)) = 1592262918131443 / 9007199254740992
   \<and> 0 < (1592262918131443 / 9007199254740992 :: rat)
   \<and> (1592262918131443 / 9007199254740992 :: rat) \<le> 1
   \<and> loadedImage (setSelectedWidthScale (img_onload initial sample_file sample_tiny)
          (w_value \<lparr>w_value = rnd (5 / 10), w_label = ''50%''\<rparr>)) = Some sample_tiny
   \<and> originalInfo (setSelectedWidthScale (img_onload initial sample_file sample_tiny)
          (w_value \<lparr>w_value = rnd (5 / 10), w_label = ''50%''\<rparr>)) =
       Some \<lparr>o_name = ''photo.png'', o_width = 3, o_height = 3, o_fileSize = 4096,
             o_type = ''image/png''\<rparr>
   \<and> 3 \<le> img_width sample_tiny
   \<and> 1 \<le> Math_round (fmul (of_nat (img_width sample_tiny)) (1592262918131443 / 9007199254740992))
   \<and> 3 \<le> img_height sample_tiny
   \<and> 1 \<le> Math_round (fmul (of_nat (img_height sample_tiny)) (1592262918131443 / 9007199254740992))
   \<and> map (\<lambda>v. (r_width v, r_height v))
       (resizedImages (handleConvert sample_codec
          (setSelectedWidthScale (img_onload initial sample_file sample_tiny)
             (w_value \<lparr>w_value = rnd (5 / 10), w_label = ''50%''\<rparr>))))
       = [(1, 1), (1, 1), (1, 1)]
   \<and> list_all (\<lambda>v. 1 \<le> r_width v \<and> 1 \<le> r_height v)
       (resizedImages (handleConvert sample_codec
          (setSelectedWidthScale (img_onload initial sample_file sample_tiny)
             (w_value \<lparr>w_value = rnd (5 / 10), w_label = ''50%''\<rparr>))))"
proof -
  let ?s = "setSelectedWidthScale (img_onload initial sample_file sample_tiny)
        (w_value \<lparr>w_value = rnd (5 / 10), w_label = ''50%''\<rparr>)"
  let ?info = "\<lparr>o_name = ''photo.png'', o_width = 3, o_height = 3, o_fileSize = 4096,
             o_type = ''image/png''\<rparr>"
  have r: "reachable sample_codec ?s"
    by (rule reachable.width_click [OF reachable.img_loaded [OF reachable.start]])
      (simp add: WIDTH_SCALE_OPTIONS_def)
  have "selectedFileSizeScales ?s = selectedFileSizeScales initial"
    by (simp add: setSelectedWidthScale_def img_onload_def)
  then have sel: "selectedFileSizeScales ?s =
      [1592262918131443 / 2251799813685248, 1 / 2, 1592262918131443 / 4503599627370496]"
    by (simp only: initial_selection file_size_values)
  have m: "fdiv 1 (Math_sqrt 8) \<in> set (selectedFileSizeScales ?s)"
    unfolding sel fdiv_1_sqrt_8 by simp
  have ws: "selectedWidthScale ?s = 1 / 2"
    by (simp add: setSelectedWidthScale_def rnd_half)
  have c: "fmul (selectedWidthScale ?s) (fdiv 1 (Math_sqrt 8)) = 1592262918131443 / 9007199254740992"
    unfolding ws fdiv_1_sqrt_8 by (simp add: combined_values)
  have l: "loadedImage ?s = Some sample_tiny" "originalInfo ?s = Some ?info"
    by (simp_all add: setSelectedWidthScale_def img_onload_def sample_file_def sample_tiny_def)
  have d: "3 \<le> img_width sample_tiny" "3 \<le> img_height sample_tiny"
    by (simp_all add: sample_tiny_def)
  note t = combined_scale_bounds [OF r m, of sample_tiny ?info]
  from t l have e: "map (\<lambda>v. (r_width v, r_height v)) (resizedImages (handleConvert sample_codec ?s)) =
      map (\<lambda>g. (Math_round (fmul (of_nat (img_width sample_tiny)) (fmul (selectedWidthScale ?s) g)),
                Math_round (fmul (of_nat (img_height sample_tiny)) (fmul (selectedWidthScale ?s) g))))
        (selectedFileSizeScales ?s)"
    by blast
  have e': "map (\<lambda>v. (r_width v, r_height v)) (resizedImages (handleConvert sample_codec ?s))
      = [(1, 1), (1, 1), (1, 1)]"
    unfolding e sel ws
    by (simp add: sample_tiny_def combined_values fmul_3 Math_round_def)
  from t l d have "\<forall>v \<in> set (resizedImages (handleConvert sample_codec ?s)).
      1 \<le> r_width v \<and> 1 \<le> r_height v"
    by blast
  then have f: "list_all (\<lambda>v. 1 \<le> r_width v \<and> 1 \<le> r_height v)
      (resizedImages (handleConvert sample_codec ?s))"
    by (simp only: list_all_iff)
  have g: "0 < (1592262918131443 / 9007199254740992 :: rat)"
    "(1592262918131443 / 9007199254740992 :: rat) \<le> 1"
    by simp_all
  from t d have h:
    "1 \<le> Math_round (fmul (of_nat (img_width sample_tiny)) (1592262918131443 / 9007199254740992))"
    "1 \<le> Math_round (fmul (of_nat (img_height sample_tiny)) (1592262918131443 / 9007199254740992))"
    unfolding c by blast+
  from r m c g l d h e' f show ?thesis by blast
qed

text \<open>
  \<^bold>\<open>C9.\<close> The file name of a download is the stem of the original name, an underscore,
  the label under which the variant is saved (its \<^verbatim>\<open>id\<close>, the percentage of the width
  scale and the token of the file-size ratio; in the second source file its ratio with the
  slash replaced by a hyphen), and the extension \<^verbatim>\<open>png\<close> when the declared type of the
  original is \<^verbatim>\<open>image/png\<close>, \<^verbatim>\<open>jpg\<close> otherwise. The stem is the name without its
  extension, or the whole name when it has no extension.
\<close>

theorem download_file_name:
  assumes "o_name info = stem @ ''.'' @ ext \<and> ext \<noteq> [] \<and> CHR ''.'' \<notin> set ext \<and> CHR ''/'' \<notin> set ext
    \<or> o_name info = stem
      \<and> \<not> (\<exists>p e. stem = p @ ''.'' @ e \<and> e \<noteq> [] \<and> CHR ''.'' \<notin> set e \<and> CHR ''/'' \<notin> set e)"
  shows "(originalInfo s = Some info \<longrightarrow>
      handleDownload s (r_dataUrl v) (r_id v) =
        s\<lparr>effects := effects s @
          [Download (r_dataUrl v)
             (stem @ ''_'' @ r_id v @ (if o_type info = ''image/png'' then ''.png'' else ''.jpg''))]\<rparr>)
    \<and> (p_originalInfo t = Some info \<longrightarrow>
      handleDownload_page t (p_dataUrl u) (p_ratio u) =
        t\<lparr>p_effects := p_effects t @
          [Download (p_dataUrl u)
             (stem @ ''_'' @ replace_char CHR ''/'' ''-'' (p_ratio u) @
              (if o_type info = ''image/png'' then ''.png'' else ''.jpg''))]\<rparr>)"
proof -
  have r: "replace_extension (o_name info) = stem"
    using assms
  proof
    assume "o_name info = stem @ ''.'' @ ext \<and> ext \<noteq> [] \<and> CHR ''.'' \<notin> set ext \<and> CHR ''/'' \<notin> set ext"
    then show ?thesis using replace_extension_stem [of ext stem] by simp
  next
    assume "o_name info = stem
      \<and> \<not> (\<exists>p e. stem = p @ ''.'' @ e \<and> e \<noteq> [] \<and> CHR ''.'' \<notin> set e \<and> CHR ''/'' \<notin> set e)"
    then show ?thesis using replace_extension_unchanged [of stem] by simp
  qed
  show ?thesis by (simp add: handleDownload_def handleDownload_page_def r Let_def)
qed

theorem download_file_name_witness:
  "o_name \<lparr>o_name = ''photo.png'', o_width = 1000, o_height = 800, o_fileSize = 4096,
      o_type = ''image/png''\<rparr> = ''photo'' @ ''.'' @ ''png''
   \<and> ''png'' \<noteq> [] \<and> CHR ''.'' \<notin> set ''png'' \<and> CHR ''/'' \<notin> set ''png''
   \<and> originalInfo sample_state =
       Some \<lparr>o_name = ''photo.png'', o_width = 1000, o_height = 800, o_fileSize = 4096,
             o_type = ''image/png''\<rparr>
   \<and> handleDownload sample_state (r_dataUrl sample_variant) (r_id sample_variant) =
       sample_state\<lparr>effects := effects sample_state @ [Download ''data:,'' ''photo_100%-1-2.png'']\<rparr>
   \<and> p_originalInfo sample_state_page =
       Some \<lparr>o_name = ''photo.png'', o_width = 1000, o_height = 800, o_fileSize = 4096,
             o_type = ''image/png''\<rparr>
   \<and> handleDownload_page sample_state_page (p_dataUrl sample_variant_page)
       (p_ratio sample_variant_page) =
       sample_state_page\<lparr>p_effects := p_effects sample_state_page @
         [Download ''data:,'' ''photo_1-2.png'']\<rparr>"
proof -
  let ?info = "\<lparr>o_name = ''photo.png'', o_width = 1000, o_height = 800, o_fileSize = 4096,
      o_type = ''image/png''\<rparr>"
  have 1: "o_name ?info = ''photo'' @ ''.'' @ ''png'' \<and> ''png'' \<noteq> [] \<and> CHR ''.'' \<notin> set ''png''
      \<and> CHR ''/'' \<notin> set ''png''
    \<or> o_name ?info = ''photo''
      \<and> \<not> (\<exists>p e. ''photo'' = p @ ''.'' @ e \<and> e \<noteq> [] \<and> CHR ''.'' \<notin> set e \<and> CHR ''/'' \<notin> set e)"
    by simp
  have p: "p_originalInfo sample_state_page = Some ?info"
    by (simp add: sample_state_page_def img_onload_page_def Let_def sample_file_def sample_img_def
        split: prod.splits option.splits)
  from download_file_name [OF 1, of sample_state sample_variant sample_state_page
      sample_variant_page]
  show ?thesis
    by (simp add: sample_state_fields p sample_variant_def sample_variant_page_def)
qed

text \<open>
  \<^bold>\<open>C10.\<close> After any sequence of toggles of option values, starting from the initial
  selection, the selected file-size scales are in strictly descending order, without
  duplicates, and among the three option values; and toggling a value twice gives the
  state back.
\<close>

theorem toggle_keeps_selection_sorted:
  assumes "set ts \<subseteq> set (map f_value FILE_SIZE_OPTIONS)"
  shows "sorted_wrt (>) (selectedFileSizeScales (foldl handleFileSizeToggle initial ts))
    \<and> distinct (selectedFileSizeScales (foldl handleFileSizeToggle initial ts))
    \<and> set (selectedFileSizeScales (foldl handleFileSizeToggle initial ts))
        \<subseteq> set (map f_value FILE_SIZE_OPTIONS)
    \<and> (\<forall>f \<in> set (map f_value FILE_SIZE_OPTIONS).
          handleFileSizeToggle (handleFileSizeToggle (foldl handleFileSizeToggle initial ts) f) f
          = foldl handleFileSizeToggle initial ts)"
  using toggles_invariant [OF assms]
  by (auto simp: strict_descending_iff intro!: toggle_twice)

theorem toggle_keeps_selection_sorted_witness:
  "set [fdiv 1 2] \<subseteq> set (map f_value FILE_SIZE_OPTIONS)
   \<and> selectedFileSizeScales (foldl handleFileSizeToggle initial [fdiv 1 2]) =
       [1592262918131443 / 2251799813685248, 1592262918131443 / 4503599627370496]
   \<and> sorted_wrt (>) (selectedFileSizeScales (foldl handleFileSizeToggle initial [fdiv 1 2]))
   \<and> distinct (selectedFileSizeScales (foldl handleFileSizeToggle initial [fdiv 1 2]))
   \<and> handleFileSizeToggle (handleFileSizeToggle (foldl handleFileSizeToggle initial [fdiv 1 2])
        (fdiv 1 (Math_sqrt 2))) (fdiv 1 (Math_sqrt 2))
       = foldl handleFileSizeToggle initial [fdiv 1 2]"
proof -
  have h: "set [fdiv 1 2] \<subseteq> set (map f_value FILE_SIZE_OPTIONS)"
    by (simp add: FILE_SIZE_OPTIONS_def)
  have e: "selectedFileSizeScales (foldl handleFileSizeToggle initial [fdiv 1 2]) =
      [1592262918131443 / 2251799813685248, 1592262918131443 / 4503599627370496]"
    by (simp add: toggle_selection initial_def fdiv_1_sqrt_2 fdiv_1_2 fdiv_1_sqrt_8)
  have f: "fdiv 1 (Math_sqrt 2) \<in> set (map f_value FILE_SIZE_OPTIONS)"
    by (simp add: FILE_SIZE_OPTIONS_def)
  from toggle_keeps_selection_sorted [OF h] f h e show ?thesis by blast
qed

end
